theory Spec2Isabelle
  imports Main "HOL-Library.Sublist"
begin

section \<open>JavaScript strings\<close>

text \<open>
  A JavaScript string is a sequence of UTF-16 code units. The model uses \<^typ>\<open>string\<close>,
  whose characters are the code units below 256 (ASCII and Latin-1). Every literal the
  program compares against is ASCII.
\<close>

text \<open>
  \<^verbatim>\<open>String.prototype.toLowerCase\<close> and \<^verbatim>\<open>toUpperCase\<close> follow the Unicode case mappings, which
  are independent of the locale. Below 256 the cased letters are the ASCII letters and the
  Latin-1 letters \<^verbatim>\<open>0xC0\<close> to \<^verbatim>\<open>0xDE\<close> (capital) and \<^verbatim>\<open>0xE0\<close> to \<^verbatim>\<open>0xFE\<close> (small), without the
  multiplication sign \<^verbatim>\<open>0xD7\<close> and the division sign \<^verbatim>\<open>0xF7\<close>. The capital of the sharp s
  (\<^verbatim>\<open>0xDF\<close>) is the two units \<^verbatim>\<open>SS\<close>, so \<^verbatim>\<open>toUpperCase\<close> can lengthen a string.

  Two code units below 256 have a capital above 255: the micro sign \<^verbatim>\<open>0xB5\<close> (capital
  \<^verbatim>\<open>U+039C\<close>) and the y with diaeresis \<^verbatim>\<open>0xFF\<close> (capital \<^verbatim>\<open>U+0178\<close>). \<^typ>\<open>string\<close> cannot hold
  these capitals: \<open>toUpperCase\<close> keeps the two units, and is the engine's function on every
  string without them. \<open>toLowerCase\<close> is the engine's function on every string of the model.
\<close>

definition ascii_upper :: string where
  "ascii_upper = ''ABCDEFGHIJKLMNOPQRSTUVWXYZ''"

definition ascii_lower :: string where
  "ascii_lower = ''abcdefghijklmnopqrstuvwxyz''"

definition ascii_digits :: string where
  "ascii_digits = ''0123456789''"

definition latin1_upper :: string where
  "latin1_upper =
     [CHR 0xC0, CHR 0xC1, CHR 0xC2, CHR 0xC3, CHR 0xC4, CHR 0xC5, CHR 0xC6, CHR 0xC7,
      CHR 0xC8, CHR 0xC9, CHR 0xCA, CHR 0xCB, CHR 0xCC, CHR 0xCD, CHR 0xCE, CHR 0xCF,
      CHR 0xD0, CHR 0xD1, CHR 0xD2, CHR 0xD3, CHR 0xD4, CHR 0xD5, CHR 0xD6, CHR 0xD8,
      CHR 0xD9, CHR 0xDA, CHR 0xDB, CHR 0xDC, CHR 0xDD, CHR 0xDE]"

definition latin1_lower :: string where
  "latin1_lower =
     [CHR 0xE0, CHR 0xE1, CHR 0xE2, CHR 0xE3, CHR 0xE4, CHR 0xE5, CHR 0xE6, CHR 0xE7,
      CHR 0xE8, CHR 0xE9, CHR 0xEA, CHR 0xEB, CHR 0xEC, CHR 0xED, CHR 0xEE, CHR 0xEF,
      CHR 0xF0, CHR 0xF1, CHR 0xF2, CHR 0xF3, CHR 0xF4, CHR 0xF5, CHR 0xF6, CHR 0xF8,
      CHR 0xF9, CHR 0xFA, CHR 0xFB, CHR 0xFC, CHR 0xFD, CHR 0xFE]"

definition lower_char :: "char \<Rightarrow> char" where
  "lower_char c =
     (case map_of (zip (ascii_upper @ latin1_upper) (ascii_lower @ latin1_lower)) c of
        None \<Rightarrow> c
      | Some d \<Rightarrow> d)"

text \<open>
  \<open>upper_char\<close> is the capital of a unit when that capital is one unit below 256, and the
  unit itself otherwise.
\<close>

definition upper_char :: "char \<Rightarrow> char" where
  "upper_char c =
     (case map_of (zip (ascii_lower @ latin1_lower) (ascii_upper @ latin1_upper)) c of
        None \<Rightarrow> c
      | Some d \<Rightarrow> d)"

definition sharp_s :: char where
  "sharp_s = CHR 0xDF"

definition upper_units :: "char \<Rightarrow> string" where
  "upper_units c = (if c = sharp_s then ''SS'' else [upper_char c])"

definition toLowerCase :: "string \<Rightarrow> string" where
  "toLowerCase s = map lower_char s"

definition toUpperCase :: "string \<Rightarrow> string" where
  "toUpperCase s = concat (map upper_units s)"

text \<open>\<^verbatim>\<open>String.prototype.includes\<close>: the needle occurs at some position.\<close>

fun js_includes :: "string \<Rightarrow> string \<Rightarrow> bool" where
  "js_includes [] sub = (sub = [])"
| "js_includes (c # cs) sub = (prefix sub (c # cs) \<or> js_includes cs sub)"

section \<open>Regular expressions\<close>

text \<open>
  The program builds its patterns with regular-expression literals and with
  \<^verbatim>\<open>new RegExp(string, "g")\<close>, and runs them with \<^verbatim>\<open>exec\<close>, \<^verbatim>\<open>test\<close> and
  \<^verbatim>\<open>String.prototype.replace\<close>. This section models that part of ECMAScript (patterns
  without the \<^verbatim>\<open>u\<close> flag): the syntax tree of a pattern, the reading of a pattern source
  into a tree, the backtracking matcher, and the three operations.

  The fragment holds every construct the program's patterns use: pattern characters,
  identity escapes, \<^verbatim>\<open>\s\<close> and \<^verbatim>\<open>\S\<close>, the dot, character classes with ranges and negation,
  the assertions \<^verbatim>\<open>^\<close> and \<^verbatim>\<open>$\<close>, capturing and non-capturing groups, alternation, the
  quantifiers \<^verbatim>\<open>*\<close>, \<^verbatim>\<open>+\<close>, \<^verbatim>\<open>?\<close> and their lazy forms, and back-references
  \<^verbatim>\<open>\1\<close> to \<^verbatim>\<open>\9\<close>.
\<close>

datatype class_item = CChar char | CRange char char | CSpace | CNotSpace

datatype regex =
    RChar char
  | RDot
  | RClass bool "class_item list"
  | RBol
  | REol
  | RBackref nat
  | RGroup nat regex
  | REmpty
  | RSeq regex regex
  | RAlt regex regex
  | RStar bool regex
  | RPlus bool regex
  | ROpt bool regex

subsection \<open>Reading a pattern source\<close>

text \<open>
  \<open>parse_regex\<close> returns \<open>None\<close> for a source that is a syntax error and for a source
  outside the fragment (a brace quantifier, a look-around, a named group, a letter or digit
  escape other than \<^verbatim>\<open>\s\<close>, \<^verbatim>\<open>\S\<close> and a single-digit back-reference to an existing group,
  an unescaped brace or closing bracket). The source is first cut into tokens, then the
  tokens are assembled with a stack of open groups. Capturing groups are numbered from 1 in
  the order of their opening parentheses.
\<close>

datatype token =
    TChar char | TDot | TBol | TEol | TStar | TPlus | TQuest | TOpen | TOpenNC | TClose | TBar
  | TClass bool "class_item list" | TBackref nat

definition BSL :: char where "BSL = CHR 0x5C"

definition syntax_chars :: string where
  "syntax_chars = ''^$.*+?()[]{}|'' @ [BSL]"

definition alnum :: "char \<Rightarrow> bool" where
  "alnum c \<longleftrightarrow> c \<in> set (ascii_upper @ ascii_lower @ ascii_digits)"

definition digit_val :: "char \<Rightarrow> nat" where
  "digit_val c = (of_char c :: nat) - 48"

text \<open>
  An escape inside a character class, and an escape outside. A character that is no letter
  and no digit stands for itself.
\<close>

definition class_escape :: "char \<Rightarrow> class_item option" where
  "class_escape c =
     (if c = CHR ''s'' then Some CSpace
      else if c = CHR ''S'' then Some CNotSpace
      else if alnum c then None
      else Some (CChar c))"

definition atom_escape :: "char \<Rightarrow> char list \<Rightarrow> token option" where
  "atom_escape c cs =
     (if c = CHR ''s'' then Some (TClass False [CSpace])
      else if c = CHR ''S'' then Some (TClass False [CNotSpace])
      else if c \<in> set ''123456789'' then
        (case cs of d # _ \<Rightarrow> if d \<in> set ascii_digits then None else Some (TBackref (digit_val c))
         | [] \<Rightarrow> Some (TBackref (digit_val c)))
      else if alnum c then None
      else Some (TChar c))"

definition plain_token :: "char \<Rightarrow> token option" where
  "plain_token c =
     (if c = CHR ''.'' then Some TDot
      else if c = CHR ''^'' then Some TBol
      else if c = CHR ''$'' then Some TEol
      else if c = CHR ''*'' then Some TStar
      else if c = CHR ''+'' then Some TPlus
      else if c = CHR ''?'' then Some TQuest
      else if c = CHR '')'' then Some TClose
      else if c = CHR ''|'' then Some TBar
      else if c \<in> set syntax_chars then None
      else Some (TChar c))"

definition cons_opt :: "'a option \<Rightarrow> 'a list option \<Rightarrow> 'a list option" where
  "cons_opt x xs = (case x of None \<Rightarrow> None | Some a \<Rightarrow> map_option ((#) a) xs)"

definition range_item :: "char \<Rightarrow> char \<Rightarrow> class_item option" where
  "range_item a b = (if (of_char a :: nat) \<le> of_char b then Some (CRange a b) else None)"

text \<open>
  In a class, \<open>pend\<close> holds the lower end of a range whose dash has been read; a dash
  that is first, last or follows a range stands for itself.
\<close>

fun lex :: "string \<Rightarrow> token list option"
  and lex_class :: "bool \<Rightarrow> class_item list \<Rightarrow> char option \<Rightarrow> string \<Rightarrow> token list option" where
  "lex [] = Some []"
| "lex (c # cs) =
     (if c = BSL then
        (case cs of [] \<Rightarrow> None | e # cs' \<Rightarrow> cons_opt (atom_escape e cs') (lex cs'))
      else if c = CHR ''['' then
        (case cs of
           [] \<Rightarrow> None
         | d # cs' \<Rightarrow> if d = CHR ''^'' then lex_class True [] None cs' else lex_class False [] None cs)
      else if c = CHR ''('' then
        (case cs of
           [] \<Rightarrow> cons_opt (Some TOpen) (lex cs)
         | d # cs' \<Rightarrow>
             if d = CHR ''?'' then
               (case cs' of [] \<Rightarrow> None
                | e # cs'' \<Rightarrow> if e = CHR '':'' then cons_opt (Some TOpenNC) (lex cs'') else None)
             else cons_opt (Some TOpen) (lex cs))
      else cons_opt (plain_token c) (lex cs))"
| "lex_class neg acc pend [] = None"
| "lex_class neg acc pend (c # cs) =
     (if c = CHR '']'' then
        cons_opt (Some (TClass neg (rev (case pend of None \<Rightarrow> acc
                                          | Some a \<Rightarrow> CChar (CHR ''-'') # CChar a # acc))))
          (lex cs)
      else if c = BSL then
        (case cs of [] \<Rightarrow> None
         | e # cs' \<Rightarrow>
             (case class_escape e of None \<Rightarrow> None
              | Some (CChar b) \<Rightarrow>
                  (case pend of None \<Rightarrow> lex_class neg (CChar b # acc) None cs'
                   | Some a \<Rightarrow>
                       (case range_item a b of None \<Rightarrow> None
                        | Some r \<Rightarrow> lex_class neg (r # acc) None cs'))
              | Some it \<Rightarrow>
                  (case pend of None \<Rightarrow> lex_class neg (it # acc) None cs' | Some a \<Rightarrow> None)))
      else
        (case pend of
           Some a \<Rightarrow>
             (case range_item a c of None \<Rightarrow> None | Some r \<Rightarrow> lex_class neg (r # acc) None cs)
         | None \<Rightarrow>
             if c = CHR ''-'' then
               (case acc of
                  CChar a # acc' \<Rightarrow> lex_class neg acc' (Some a) cs
                | CRange a b # acc' \<Rightarrow> lex_class neg (CChar c # acc) None cs
                | [] \<Rightarrow> lex_class neg (CChar c # acc) None cs
                | _ \<Rightarrow> None)
             else lex_class neg (CChar c # acc) None cs))"

text \<open>
  The items of the alternative being read: an atom (which may take a quantifier), an atom
  with a greedy quantifier (which a following \<^verbatim>\<open>?\<close> makes lazy), and an item that takes
  nothing more (an assertion, a lazily quantified atom).
\<close>

datatype pitem = PAtom regex | PQuant regex | PFixed regex

fun item_regex :: "pitem \<Rightarrow> regex" where
  "item_regex (PAtom r) = r"
| "item_regex (PQuant r) = r"
| "item_regex (PFixed r) = r"

definition seqs :: "regex list \<Rightarrow> regex" where
  "seqs rs = foldr RSeq rs REmpty"

fun alts_of :: "regex list \<Rightarrow> regex" where
  "alts_of [] = REmpty"
| "alts_of [r] = r"
| "alts_of (r # rs) = RAlt r (alts_of rs)"

definition close_alt :: "pitem list \<Rightarrow> regex" where
  "close_alt items = seqs (map item_regex (rev items))"

definition close_frame :: "regex list \<Rightarrow> pitem list \<Rightarrow> regex" where
  "close_frame alts items = alts_of (rev (close_alt items # alts))"

fun make_lazy :: "regex \<Rightarrow> regex" where
  "make_lazy (RStar g r) = RStar False r"
| "make_lazy (RPlus g r) = RPlus False r"
| "make_lazy (ROpt g r) = ROpt False r"
| "make_lazy r = r"

type_synonym frame = "nat option \<times> regex list \<times> pitem list"

fun parse_tokens :: "frame list \<Rightarrow> regex list \<Rightarrow> pitem list \<Rightarrow> nat \<Rightarrow> token list \<Rightarrow> regex option" where
  "parse_tokens stack alts items n [] = (if stack = [] then Some (close_frame alts items) else None)"
| "parse_tokens stack alts items n (TChar c # ts) =
     parse_tokens stack alts (PAtom (RChar c) # items) n ts"
| "parse_tokens stack alts items n (TDot # ts) = parse_tokens stack alts (PAtom RDot # items) n ts"
| "parse_tokens stack alts items n (TClass neg cls # ts) =
     parse_tokens stack alts (PAtom (RClass neg cls) # items) n ts"
| "parse_tokens stack alts items n (TBackref k # ts) =
     parse_tokens stack alts (PAtom (RBackref k) # items) n ts"
| "parse_tokens stack alts items n (TBol # ts) = parse_tokens stack alts (PFixed RBol # items) n ts"
| "parse_tokens stack alts items n (TEol # ts) = parse_tokens stack alts (PFixed REol # items) n ts"
| "parse_tokens stack alts items n (TStar # ts) =
     (case items of PAtom r # rest \<Rightarrow> parse_tokens stack alts (PQuant (RStar True r) # rest) n ts
      | _ \<Rightarrow> None)"
| "parse_tokens stack alts items n (TPlus # ts) =
     (case items of PAtom r # rest \<Rightarrow> parse_tokens stack alts (PQuant (RPlus True r) # rest) n ts
      | _ \<Rightarrow> None)"
| "parse_tokens stack alts items n (TQuest # ts) =
     (case items of
        PAtom r # rest \<Rightarrow> parse_tokens stack alts (PQuant (ROpt True r) # rest) n ts
      | PQuant q # rest \<Rightarrow> parse_tokens stack alts (PFixed (make_lazy q) # rest) n ts
      | _ \<Rightarrow> None)"
| "parse_tokens stack alts items n (TOpen # ts) =
     parse_tokens ((Some n, alts, items) # stack) [] [] (Suc n) ts"
| "parse_tokens stack alts items n (TOpenNC # ts) =
     parse_tokens ((None, alts, items) # stack) [] [] n ts"
| "parse_tokens stack alts items n (TClose # ts) =
     (case stack of
        [] \<Rightarrow> None
      | (g, alts', items') # stack' \<Rightarrow>
          parse_tokens stack' alts'
            (PAtom (case g of None \<Rightarrow> close_frame alts items
                    | Some k \<Rightarrow> RGroup k (close_frame alts items)) # items') n ts)"
| "parse_tokens stack alts items n (TBar # ts) =
     parse_tokens stack (close_alt items # alts) [] n ts"

fun groups :: "regex \<Rightarrow> nat list" where
  "groups (RGroup n r) = n # groups r"
| "groups (RSeq a b) = groups a @ groups b"
| "groups (RAlt a b) = groups a @ groups b"
| "groups (RStar g r) = groups r"
| "groups (RPlus g r) = groups r"
| "groups (ROpt g r) = groups r"
| "groups r = []"

fun backrefs :: "regex \<Rightarrow> nat list" where
  "backrefs (RBackref n) = [n]"
| "backrefs (RGroup n r) = backrefs r"
| "backrefs (RSeq a b) = backrefs a @ backrefs b"
| "backrefs (RAlt a b) = backrefs a @ backrefs b"
| "backrefs (RStar g r) = backrefs r"
| "backrefs (RPlus g r) = backrefs r"
| "backrefs (ROpt g r) = backrefs r"
| "backrefs r = []"

definition parse_regex :: "string \<Rightarrow> regex option" where
  "parse_regex src =
     (case lex src of
        None \<Rightarrow> None
      | Some ts \<Rightarrow>
          (case parse_tokens [] [] [] 1 ts of
             None \<Rightarrow> None
           | Some r \<Rightarrow> if list_all (\<lambda>k. k \<in> set (groups r)) (backrefs r) then Some r else None))"

subsection \<open>Matcher\<close>

text \<open>
  The matcher follows the continuation semantics of the ECMAScript specification, written
  as a list of successes: \<open>matcher ic r st\<close> is the list of the states in which a match
  of \<open>r\<close> from \<open>st\<close> can end, in the order in which backtracking tries them, so the
  match that the engine reports is the head of the list. A state is the position, the rest
  of the input from that position, and the captures so far.

  \<^verbatim>\<open>\s\<close> is the white space and the line terminators below 256; the dot excludes the line
  terminators. With the \<^verbatim>\<open>i\<close> flag characters are compared after \<open>upper_char\<close>, which is
  \<^verbatim>\<open>Canonicalize\<close> of the specification as far as two units below 256 are compared: a unit
  whose capital is more than one unit (the sharp s) is its own canonical form, and the
  capitals above 255 of the micro sign and of the y with diaeresis are the capital of no
  other unit below 256. The patterns of the program that carry the flag are ASCII words.
\<close>

definition whitespace :: string where
  "whitespace = [CHR 0x09, CHR 0x0A, CHR 0x0B, CHR 0x0C, CHR 0x0D, CHR 0x20, CHR 0xA0]"

definition line_terminators :: string where
  "line_terminators = [CHR 0x0A, CHR 0x0D]"

definition canonicalize :: "bool \<Rightarrow> char \<Rightarrow> char" where
  "canonicalize ic c = (if ic then upper_char c else c)"

fun item_has :: "class_item \<Rightarrow> char \<Rightarrow> bool" where
  "item_has (CChar c) x = (x = c)"
| "item_has (CRange a b) x = ((of_char a :: nat) \<le> of_char x \<and> (of_char x :: nat) \<le> of_char b)"
| "item_has CSpace x = (x \<in> set whitespace)"
| "item_has CNotSpace x = (x \<notin> set whitespace)"

definition class_has :: "bool \<Rightarrow> class_item list \<Rightarrow> char \<Rightarrow> bool" where
  "class_has ic cls x =
     list_ex (\<lambda>it. item_has it x \<or> (ic \<and> (item_has it (upper_char x) \<or> item_has it (lower_char x)))) cls"

text \<open>
  Captures are an association list, the latest capture of a group first. At the start of
  each iteration of a quantified term the captures of the groups inside it are cleared, and
  an iteration that consumes nothing is rejected (\<open>advanced\<close>), as \<^verbatim>\<open>RepeatMatcher\<close> does.
  Each iteration of a star or plus consumes at least one character, so the length of the
  rest of the input bounds the number of iterations: it is the fuel of \<open>star_loop\<close>
  (\<open>star_loop_fuel\<close> below shows that more fuel gives the same list). A back-reference to a
  group that has not captured matches the empty string.
\<close>

type_synonym captures = "(nat \<times> string) list"

record mstate =
  st_pos :: nat
  st_rest :: string
  st_caps :: captures

definition reset_groups :: "nat list \<Rightarrow> mstate \<Rightarrow> mstate" where
  "reset_groups gs st = st\<lparr>st_caps := filter (\<lambda>(k, w). k \<notin> set gs) (st_caps st)\<rparr>"

definition advanced :: "mstate \<Rightarrow> mstate \<Rightarrow> bool" where
  "advanced st st' \<longleftrightarrow> st_pos st' \<noteq> st_pos st"

fun star_loop :: "nat \<Rightarrow> bool \<Rightarrow> (mstate \<Rightarrow> mstate list) \<Rightarrow> mstate \<Rightarrow> mstate list" where
  "star_loop 0 greedy step st = [st]"
| "star_loop (Suc k) greedy step st =
     (if greedy
      then concat (map (star_loop k greedy step) (filter (advanced st) (step st))) @ [st]
      else st # concat (map (star_loop k greedy step) (filter (advanced st) (step st))))"

definition star_match :: "bool \<Rightarrow> (mstate \<Rightarrow> mstate list) \<Rightarrow> mstate \<Rightarrow> mstate list" where
  "star_match greedy step st = star_loop (length (st_rest st)) greedy step st"

definition match_char :: "(char \<Rightarrow> bool) \<Rightarrow> mstate \<Rightarrow> mstate list" where
  "match_char p st =
     (case st_rest st of
        [] \<Rightarrow> []
      | x # xs \<Rightarrow> if p x then [st\<lparr>st_pos := Suc (st_pos st), st_rest := xs\<rparr>] else [])"

definition match_backref :: "bool \<Rightarrow> nat \<Rightarrow> mstate \<Rightarrow> mstate list" where
  "match_backref ic n st =
     (case map_of (st_caps st) n of
        None \<Rightarrow> [st]
      | Some w \<Rightarrow>
          if length w \<le> length (st_rest st)
             \<and> map (canonicalize ic) (take (length w) (st_rest st)) = map (canonicalize ic) w
          then [st\<lparr>st_pos := st_pos st + length w, st_rest := drop (length w) (st_rest st)\<rparr>]
          else [])"

definition capture :: "nat \<Rightarrow> mstate \<Rightarrow> mstate \<Rightarrow> mstate" where
  "capture n st st' =
     st'\<lparr>st_caps := (n, take (st_pos st' - st_pos st) (st_rest st)) # st_caps st'\<rparr>"

fun matcher :: "bool \<Rightarrow> regex \<Rightarrow> mstate \<Rightarrow> mstate list" where
  "matcher ic (RChar c) st = match_char (\<lambda>x. canonicalize ic x = canonicalize ic c) st"
| "matcher ic RDot st = match_char (\<lambda>x. x \<notin> set line_terminators) st"
| "matcher ic (RClass neg cls) st = match_char (\<lambda>x. class_has ic cls x \<noteq> neg) st"
| "matcher ic RBol st = (if st_pos st = 0 then [st] else [])"
| "matcher ic REol st = (if st_rest st = [] then [st] else [])"
| "matcher ic (RBackref n) st = match_backref ic n st"
| "matcher ic (RGroup n r) st = map (capture n st) (matcher ic r st)"
| "matcher ic REmpty st = [st]"
| "matcher ic (RSeq a b) st = concat (map (matcher ic b) (matcher ic a st))"
| "matcher ic (RAlt a b) st = matcher ic a st @ matcher ic b st"
| "matcher ic (RStar g r) st = star_match g (\<lambda>s. matcher ic r (reset_groups (groups r) s)) st"
| "matcher ic (RPlus g r) st =
     concat (map (star_match g (\<lambda>s. matcher ic r (reset_groups (groups r) s)))
       (matcher ic r (reset_groups (groups r) st)))"
| "matcher ic (ROpt g r) st =
     (if g then filter (advanced st) (matcher ic r (reset_groups (groups r) st)) @ [st]
      else st # filter (advanced st) (matcher ic r (reset_groups (groups r) st)))"

subsection \<open>Search, exec, test\<close>

text \<open>
  A match result: the index, the end index, the matched text (\<^verbatim>\<open>match[0]\<close>) and the
  captures \<^verbatim>\<open>match[1]\<close>, \<^verbatim>\<open>match[2]\<close>, ... (\<open>None\<close> is \<^verbatim>\<open>undefined\<close>). \<open>scan\<close> tries the
  positions from \<open>pos\<close> upwards, the end of the input included.
\<close>

record js_match =
  m_index :: nat
  m_end :: nat
  m_matched :: string
  m_groups :: "string option list"

definition group_list :: "regex \<Rightarrow> captures \<Rightarrow> string option list" where
  "group_list r caps = map (map_of caps) [1 ..< Suc (length (groups r))]"

definition match_at :: "bool \<Rightarrow> regex \<Rightarrow> nat \<Rightarrow> string \<Rightarrow> js_match option" where
  "match_at ic r pos rest =
     (case matcher ic r \<lparr>st_pos = pos, st_rest = rest, st_caps = []\<rparr> of
        [] \<Rightarrow> None
      | st' # _ \<Rightarrow>
          Some \<lparr>m_index = pos, m_end = st_pos st', m_matched = take (st_pos st' - pos) rest,
                m_groups = group_list r (st_caps st')\<rparr>)"

fun scan :: "bool \<Rightarrow> regex \<Rightarrow> nat \<Rightarrow> string \<Rightarrow> js_match option" where
  "scan ic r pos [] = match_at ic r pos []"
| "scan ic r pos (x # xs) =
     (case match_at ic r pos (x # xs) of
        Some m \<Rightarrow> Some m
      | None \<Rightarrow> scan ic r (Suc pos) xs)"

text \<open>
  A regular-expression object with its \<^verbatim>\<open>lastIndex\<close>. \<^verbatim>\<open>exec\<close> on a global object starts
  at \<^verbatim>\<open>lastIndex\<close> and leaves the end of the match there; it resets \<^verbatim>\<open>lastIndex\<close> to 0
  when there is no match. \<open>regexp_exec\<close> returns the result and the object as it is after
  the call.
\<close>

record regexp =
  rx_regex :: regex
  rx_global :: bool
  rx_ignoreCase :: bool
  rx_lastIndex :: nat

definition global_regexp :: "regex \<Rightarrow> regexp" where
  "global_regexp r = \<lparr>rx_regex = r, rx_global = True, rx_ignoreCase = False, rx_lastIndex = 0\<rparr>"

definition regexp_exec :: "regexp \<Rightarrow> string \<Rightarrow> js_match option \<times> regexp" where
  "regexp_exec rx s =
     (let i = (if rx_global rx then rx_lastIndex rx else 0) in
      if i > length s then (None, rx\<lparr>rx_lastIndex := 0\<rparr>)
      else
        (case scan (rx_ignoreCase rx) (rx_regex rx) i (drop i s) of
           None \<Rightarrow> (None, if rx_global rx then rx\<lparr>rx_lastIndex := 0\<rparr> else rx)
         | Some m \<Rightarrow> (Some m, if rx_global rx then rx\<lparr>rx_lastIndex := m_end m\<rparr> else rx)))"

definition regexp_test :: "bool \<Rightarrow> regex \<Rightarrow> string \<Rightarrow> bool" where
  "regexp_test ic r s = (scan ic r 0 s \<noteq> None)"

subsection \<open>\<^verbatim>\<open>String.prototype.replace\<close> with a replacement string\<close>

text \<open>
  \<open>get_substitution\<close> expands the replacement patterns of the replacement string:
  \<^verbatim>\<open>$$\<close>, \<^verbatim>\<open>$&\<close>, the text before and after the match, and \<^verbatim>\<open>$n\<close>, \<^verbatim>\<open>$nn\<close> for the
  captures (a two-digit index beyond the number of groups is read as one digit; an index
  that names no group is kept as text).
\<close>

definition is_digit :: "char \<Rightarrow> bool" where
  "is_digit c \<longleftrightarrow> c \<in> set ascii_digits"

definition capture_text :: "string option list \<Rightarrow> nat \<Rightarrow> string" where
  "capture_text caps k = (case caps ! (k - 1) of None \<Rightarrow> [] | Some w \<Rightarrow> w)"

fun get_substitution :: "string \<Rightarrow> string \<Rightarrow> nat \<Rightarrow> string option list \<Rightarrow> string \<Rightarrow> string" where
  "get_substitution matched str position caps [] = []"
| "get_substitution matched str position caps [c] = [c]"
| "get_substitution matched str position caps (c # d # t) =
     (if c \<noteq> CHR ''$'' then c # get_substitution matched str position caps (d # t)
      else if d = CHR ''$'' then CHR ''$'' # get_substitution matched str position caps t
      else if d = CHR ''&'' then matched @ get_substitution matched str position caps t
      else if d = CHR 0x60 then take position str @ get_substitution matched str position caps t
      else if d = CHR 0x27 then
        drop (position + length matched) str @ get_substitution matched str position caps t
      else if is_digit d then
        (case t of
           e # t' \<Rightarrow>
             if is_digit e \<and> 1 \<le> 10 * digit_val d + digit_val e
                \<and> 10 * digit_val d + digit_val e \<le> length caps
             then capture_text caps (10 * digit_val d + digit_val e)
                    @ get_substitution matched str position caps t'
             else if is_digit e \<and> 10 * digit_val d + digit_val e \<le> length caps
             then c # d # e # get_substitution matched str position caps t'
             else if 1 \<le> digit_val d \<and> digit_val d \<le> length caps
             then capture_text caps (digit_val d) @ get_substitution matched str position caps t
             else c # d # get_substitution matched str position caps t
         | [] \<Rightarrow>
             if 1 \<le> digit_val d \<and> digit_val d \<le> length caps
             then capture_text caps (digit_val d) else [c, d])
      else c # get_substitution matched str position caps (d # t))"

text \<open>
  The replacement walks the text from the left. At a position where the pattern matches it
  emits the expansion and, for a global pattern, goes on after the match (after one more
  character when the match is empty); elsewhere it copies the character. \<open>s\<close> is the whole
  text, \<open>rest\<close> its part from \<open>pos\<close>.
\<close>

function replace_from :: "bool \<Rightarrow> bool \<Rightarrow> regex \<Rightarrow> string \<Rightarrow> string \<Rightarrow> nat \<Rightarrow> string \<Rightarrow> string" where
  "replace_from global ic r template s pos rest =
     (case match_at ic r pos rest of
        None \<Rightarrow> (case rest of [] \<Rightarrow> [] | x # xs \<Rightarrow> x # replace_from global ic r template s (Suc pos) xs)
      | Some m \<Rightarrow>
          get_substitution (m_matched m) s pos (m_groups m) template
          @ (if \<not> global then drop (m_end m - pos) rest
             else
               (case rest of
                  [] \<Rightarrow> []
                | x # xs \<Rightarrow>
                    if m_end m = pos then x # replace_from global ic r template s (Suc pos) xs
                    else replace_from global ic r template s (m_end m) (drop (m_end m - pos - 1) xs))))"
  by pat_completeness auto
termination
  by (relation "measure (\<lambda>(global, ic, r, template, s, pos, rest). length rest)") auto

declare replace_from.simps [simp del]

definition string_replace :: "regexp \<Rightarrow> string \<Rightarrow> string \<Rightarrow> string" where
  "string_replace rx template s =
     replace_from (rx_global rx) (rx_ignoreCase rx) (rx_regex rx) template s 0 s"

subsection \<open>The matcher only moves forward\<close>

definition follows :: "mstate \<Rightarrow> mstate \<Rightarrow> bool" where
  "follows st st' \<longleftrightarrow>
     st_pos st \<le> st_pos st' \<and> st_pos st' - st_pos st \<le> length (st_rest st)
     \<and> st_rest st' = drop (st_pos st' - st_pos st) (st_rest st)"

lemma follows_refl: "follows st st"
  by (simp add: follows_def)

lemma follows_trans: "follows a b \<Longrightarrow> follows b c \<Longrightarrow> follows a c"
  by (auto simp: follows_def)

lemma follows_reset: "follows (reset_groups gs st) st' \<longleftrightarrow> follows st st'"
  by (simp add: follows_def reset_groups_def)

lemma follows_capture: "follows st (capture n st0 st') \<longleftrightarrow> follows st st'"
  by (simp add: follows_def capture_def)

lemma match_char_follows: "st' \<in> set (match_char p st) \<Longrightarrow> follows st st'"
  by (cases "st_rest st") (auto simp: match_char_def follows_def split: if_splits)

lemma match_backref_follows: "st' \<in> set (match_backref ic n st) \<Longrightarrow> follows st st'"
  by (auto simp: match_backref_def follows_def split: option.splits if_splits)

lemma star_loop_follows:
  assumes step: "\<And>s s'. s' \<in> set (step s) \<Longrightarrow> follows s s'"
  shows "st' \<in> set (star_loop k g step st) \<Longrightarrow> follows st st'"
proof (induction k arbitrary: st)
  case 0
  then show ?case by (simp add: follows_refl)
next
  case (Suc k)
  then show ?case
    by (auto simp: follows_refl split: if_splits dest!: step intro: follows_trans)
qed

lemma matcher_follows: "st' \<in> set (matcher ic r st) \<Longrightarrow> follows st st'"
proof (induction r arbitrary: st st')
  case (RChar c)
  then show ?case by (auto dest: match_char_follows)
next
  case RDot
  then show ?case by (auto dest: match_char_follows)
next
  case (RClass neg cls)
  then show ?case by (auto dest: match_char_follows)
next
  case RBol
  then show ?case by (auto simp: follows_refl split: if_splits)
next
  case REol
  then show ?case by (auto simp: follows_refl split: if_splits)
next
  case (RBackref n)
  then show ?case by (auto dest: match_backref_follows)
next
  case (RGroup n r)
  then show ?case by (auto simp: follows_capture)
next
  case REmpty
  then show ?case by (simp add: follows_refl)
next
  case (RSeq a b)
  from RSeq.prems obtain s1 where "s1 \<in> set (matcher ic a st)" "st' \<in> set (matcher ic b s1)"
    by auto
  then show ?case using RSeq.IH by (blast intro: follows_trans)
next
  case (RAlt a b)
  then show ?case by auto
next
  case (RStar g r)
  have step: "\<And>s s'. s' \<in> set (matcher ic r (reset_groups (groups r) s)) \<Longrightarrow> follows s s'"
    using RStar.IH follows_reset by blast
  from RStar.prems show ?case
    by (simp add: star_match_def) (rule star_loop_follows [OF step], assumption+)
next
  case (RPlus g r)
  have step: "\<And>s s'. s' \<in> set (matcher ic r (reset_groups (groups r) s)) \<Longrightarrow> follows s s'"
    using RPlus.IH follows_reset by blast
  from RPlus.prems obtain s1 where s1: "s1 \<in> set (matcher ic r (reset_groups (groups r) st))"
    and s2: "st' \<in> set (star_loop (length (st_rest s1)) g
        (\<lambda>s. matcher ic r (reset_groups (groups r) s)) s1)"
    by (auto simp: star_match_def)
  from step [OF s1] star_loop_follows [OF step s2] show ?case
    by (rule follows_trans)
next
  case (ROpt g r)
  have step: "\<And>s s'. s' \<in> set (matcher ic r (reset_groups (groups r) s)) \<Longrightarrow> follows s s'"
    using ROpt.IH follows_reset by blast
  from ROpt.prems show ?case
    by (auto simp: follows_refl split: if_splits dest: step)
qed

text \<open>The fuel of the star is enough: more fuel gives the same result.\<close>

lemma star_loop_more_fuel:
  assumes step: "\<And>s s'. s' \<in> set (step s) \<Longrightarrow> follows s s'"
  shows "length (st_rest st) \<le> k \<Longrightarrow> star_loop (Suc k) g step st = star_loop k g step st"
proof (induction k arbitrary: st)
  case 0
  have "filter (advanced st) (step st) = []"
    using 0 step [of _ st] by (fastforce simp: filter_empty_conv advanced_def follows_def)
  then show ?case by simp
next
  case (Suc k)
  have "star_loop (Suc k) g step s' = star_loop k g step s'"
    if "s' \<in> set (filter (advanced st) (step st))" for s'
  proof -
    from that have "follows st s'" "st_pos s' \<noteq> st_pos st" by (auto dest: step simp: advanced_def)
    then have "length (st_rest s') < length (st_rest st)"
      by (auto simp: follows_def)
    with Suc.prems show ?thesis by (intro Suc.IH) simp
  qed
  then have eq: "map (star_loop (Suc k) g step) (filter (advanced st) (step st))
      = map (star_loop k g step) (filter (advanced st) (step st))"
    by (intro map_cong) auto
  show ?case
    unfolding star_loop.simps(2) [of "Suc k" g step st] star_loop.simps(2) [of k g step st] eq ..
qed

lemma star_loop_fuel:
  assumes step: "\<And>s s'. s' \<in> set (step s) \<Longrightarrow> follows s s'"
  shows "length (st_rest st) \<le> k \<Longrightarrow> star_loop k g step st = star_match g step st"
proof (induction k)
  case 0
  then show ?case by (simp add: star_match_def)
next
  case (Suc k)
  show ?case
  proof (cases "length (st_rest st) \<le> k")
    case True
    then show ?thesis using Suc.IH star_loop_more_fuel [of step st k g] step by simp
  next
    case False
    with Suc.prems have "length (st_rest st) = Suc k" by simp
    then show ?thesis by (simp add: star_match_def)
  qed
qed

section \<open>Types (\<^verbatim>\<open>src/types/index.ts\<close>)\<close>

datatype EnvVarType = Email | Password

record EnvVar =
  ev_name :: string
  ev_value :: string
  ev_type :: EnvVarType

record Role =
  role_name :: string
  role_storagePath :: string
  role_testMatch :: "string list option"
  role_envVars :: "string list option"
  role_folder :: "string option"

record GithubActions =
  ga_enabled :: bool
  ga_path :: string

record Setup =
  setup_path :: string
  setup_enabled :: bool
  setup_projectName :: "string option"

record QADirectorConfig =
  cfg_baseURL :: string
  cfg_testDir :: string
  cfg_roles :: "Role list"
  cfg_authDir :: string
  cfg_githubActions :: GithubActions
  cfg_setup :: Setup
  cfg_envDir :: string
  cfg_playwrightConfig :: string

section \<open>De-duplication (\<^verbatim>\<open>deduplicateEnvVars\<close>)\<close>

text \<open>
  The loop body of \<^verbatim>\<open>deduplicateEnvVars\<close>: the state is the two sets of seen names and
  seen values and the array of kept entries.
\<close>

fun dedup_loop :: "string set \<Rightarrow> string set \<Rightarrow> EnvVar list \<Rightarrow> EnvVar list \<Rightarrow> EnvVar list" where
  "dedup_loop seenNames seenValues uniqueVars [] = uniqueVars"
| "dedup_loop seenNames seenValues uniqueVars (envVar # rest) =
     (if ev_name envVar \<notin> seenNames \<and> ev_value envVar \<notin> seenValues
      then dedup_loop (insert (ev_name envVar) seenNames) (insert (ev_value envVar) seenValues)
             (uniqueVars @ [envVar]) rest
      else dedup_loop seenNames seenValues uniqueVars rest)"

definition deduplicateEnvVars :: "EnvVar list \<Rightarrow> EnvVar list" where
  "deduplicateEnvVars envVars = dedup_loop {} {} [] envVars"

section \<open>Naming (\<^verbatim>\<open>generateEnvVarName\<close>)\<close>

text \<open>
  \<^verbatim>\<open>fieldContext\<close> and \<^verbatim>\<open>roleName\<close> are optional parameters. An absent or empty role name
  is falsy and gives the prefix \<^verbatim>\<open>USER\<close>; an absent field context makes the optional chain
  undefined, which is falsy. The \<^verbatim>\<open>default\<close> branch of the switch is outside the type
  \<^verbatim>\<open>"email" | "password"\<close> of the parameter.
\<close>

definition rolePrefix :: "string option \<Rightarrow> string" where
  "rolePrefix roleName =
     (case roleName of None \<Rightarrow> ''USER''
      | Some r \<Rightarrow> if r = [] then ''USER'' else toUpperCase r)"

definition admin_context :: "string \<Rightarrow> string option \<Rightarrow> bool" where
  "admin_context v fieldContext =
     ((case fieldContext of None \<Rightarrow> False | Some fc \<Rightarrow> js_includes (toLowerCase fc) ''admin'')
      \<or> js_includes (toLowerCase v) ''admin'')"

fun generateEnvVarName :: "string \<Rightarrow> EnvVarType \<Rightarrow> string option \<Rightarrow> string option \<Rightarrow> string" where
  "generateEnvVarName v Email fieldContext roleName =
     (if admin_context v fieldContext then ''QA_ADMIN_EMAIL''
      else ''QA_'' @ rolePrefix roleName @ ''_EMAIL'')"
| "generateEnvVarName v Password fieldContext roleName =
     (if admin_context v fieldContext then ''QA_ADMIN_PASSWORD''
      else ''QA_'' @ rolePrefix roleName @ ''_PASSWORD'')"

section \<open>Environment-variable detection (\<^verbatim>\<open>src/core/env-detection.ts\<close>)\<close>

subsection \<open>The fill patterns\<close>

text \<open>
  A pattern of the program is given twice: its source text and its syntax tree, with the
  lemma that the source text reads as the tree. In a source text written here the percent
  sign stands for the backslash (\<open>bs\<close> puts the backslash back); no pattern of the
  program contains a percent sign.
\<close>

definition bs :: "string \<Rightarrow> string" where
  "bs s = map (\<lambda>c. if c = CHR ''%'' then BSL else c) s"

definition lits :: "string \<Rightarrow> regex list" where
  "lits s = map RChar s"

definition SQ :: char where "SQ = CHR 0x27"
definition DQ :: char where "DQ = CHR 0x22"
definition BQ :: char where "BQ = CHR 0x60"

definition quote_chars :: string where
  "quote_chars = [SQ, DQ, BQ]"

definition quote_class :: regex where
  "quote_class = RClass False (map CChar quote_chars)"

definition non_quote :: regex where
  "non_quote = RClass True (map CChar quote_chars)"

definition space_class :: regex where
  "space_class = RClass False [CSpace]"

text \<open>
  The two patterns of \<^verbatim>\<open>fillPatterns\<close>: a locator \<^verbatim>\<open>.getByRole('textbox', { name: '...' })\<close>
  whose name holds a keyword (group 1, the field context), any text, as little as possible,
  and \<^verbatim>\<open>.fill('...')\<close> (group 2, the value).
\<close>

definition emailPattern_src :: string where
  \<open>emailPattern_src = bs ''%.getByRole%([\'"`]textbox[\'"`],%s*%{%s*name:%s*[\'"`]([^\'"`]*(?:[eE]mail|[uU]sername|[uU]ser)[^\'"`]*)[\'"`]%s*%}%)[%s%S]*?%.fill%([\'"`]([^\'"`]+)[\'"`]%)''\<close>

definition passwordPattern_src :: string where
  \<open>passwordPattern_src = bs ''%.getByRole%([\'"`]textbox[\'"`],%s*%{%s*name:%s*[\'"`]([^\'"`]*[pP]assword[^\'"`]*)[\'"`]%s*%}%)[%s%S]*?%.fill%([\'"`]([^\'"`]+)[\'"`]%)''\<close>

definition fill_pattern :: "regex list \<Rightarrow> regex" where
  "fill_pattern keyword =
     seqs (lits ''.getByRole('' @ [quote_class] @ lits ''textbox''
       @ [quote_class, RChar CHR '','', RStar True space_class, RChar CHR ''{'', RStar True space_class]
       @ lits ''name:''
       @ [RStar True space_class, quote_class,
          RGroup 1 (seqs ([RStar True non_quote] @ keyword @ [RStar True non_quote])),
          quote_class, RStar True space_class, RChar CHR ''}'', RChar CHR '')'',
          RStar False (RClass False [CSpace, CNotSpace])]
       @ lits ''.fill(''
       @ [quote_class, RGroup 2 (seqs [RPlus True non_quote]), quote_class, RChar CHR '')''])"

definition emailPattern :: regex where
  "emailPattern =
     fill_pattern
       [RAlt (seqs (RClass False [CChar CHR ''e'', CChar CHR ''E''] # lits ''mail''))
          (RAlt (seqs (RClass False [CChar CHR ''u'', CChar CHR ''U''] # lits ''sername''))
                (seqs (RClass False [CChar CHR ''u'', CChar CHR ''U''] # lits ''ser'')))]"

definition passwordPattern :: regex where
  "passwordPattern =
     fill_pattern (RClass False [CChar CHR ''p'', CChar CHR ''P''] # lits ''assword'')"

lemma emailPattern_parses: "parse_regex emailPattern_src = Some emailPattern"
  by code_simp

lemma passwordPattern_parses: "parse_regex passwordPattern_src = Some passwordPattern"
  by code_simp

subsection \<open>\<^verbatim>\<open>isLikelySelector\<close>, \<^verbatim>\<open>isCommonTestData\<close>\<close>

text \<open>The eight selector patterns, each with its \<^verbatim>\<open>i\<close> flag.\<close>

definition letter_class :: regex where
  "letter_class = RClass False [CRange CHR ''a'' CHR ''z'', CRange CHR ''A'' CHR ''Z'']"

definition alnum_class :: regex where
  "alnum_class =
     RClass False [CRange CHR ''a'' CHR ''z'', CRange CHR ''A'' CHR ''Z'', CRange CHR ''0'' CHR ''9'']"

definition selectorPatterns_src :: "(string \<times> bool) list" where
  "selectorPatterns_src =
     [(''^#[a-zA-Z]'', False),
      (bs ''^%.[a-zA-Z]'', False),
      (bs ''^%[.*%]$'', False),
      (''^[a-zA-Z][a-zA-Z0-9]*$'', False),
      (''data-testid'', True),
      (''data-cy'', True),
      (''class='', True),
      (''id='', True)]"

definition selectorPatterns :: "(regex \<times> bool) list" where
  "selectorPatterns =
     [(seqs [RBol, RChar CHR ''#'', letter_class], False),
      (seqs [RBol, RChar CHR ''.'', letter_class], False),
      (seqs [RBol, RChar CHR ''['', RStar True RDot, RChar CHR '']'', REol], False),
      (seqs [RBol, letter_class, RStar True alnum_class, REol], False),
      (seqs (lits ''data-testid''), True),
      (seqs (lits ''data-cy''), True),
      (seqs (lits ''class=''), True),
      (seqs (lits ''id=''), True)]"

lemma selectorPatterns_parse:
  "map (\<lambda>(src, ic). (parse_regex src, ic)) selectorPatterns_src
     = map (\<lambda>(r, ic). (Some r, ic)) selectorPatterns"
  by code_simp

definition isLikelySelector :: "string \<Rightarrow> bool" where
  "isLikelySelector v = list_ex (\<lambda>(pattern, ic). regexp_test ic pattern v) selectorPatterns"

definition commonTestData :: "string list" where
  "commonTestData =
     [''test'', ''demo'', ''sample'', ''example'', ''placeholder'', ''lorem'', ''ipsum'', ''john'',
      ''jane'', ''doe'', ''admin'', ''user'', ''guest'', ''test123'', ''password123'']"

definition isCommonTestData :: "string \<Rightarrow> bool" where
  "isCommonTestData v = list_ex (\<lambda>d. js_includes (toLowerCase v) d) commonTestData"

subsection \<open>Bounds of a match\<close>

text \<open>
  A match starts at or after the position the search starts from and ends inside the text.
  The loops below terminate by these bounds.
\<close>

lemma match_at_bounds:
  assumes "match_at ic r pos rest = Some m"
  shows "m_index m = pos \<and> pos \<le> m_end m \<and> m_end m \<le> pos + length rest"
proof -
  from assms obtain st' sts where
    m: "matcher ic r \<lparr>st_pos = pos, st_rest = rest, st_caps = []\<rparr> = st' # sts"
    and mm: "m = \<lparr>m_index = pos, m_end = st_pos st', m_matched = take (st_pos st' - pos) rest,
                m_groups = group_list r (st_caps st')\<rparr>"
    by (auto simp: match_at_def split: list.splits)
  from m have "follows \<lparr>st_pos = pos, st_rest = rest, st_caps = []\<rparr> st'"
    by (intro matcher_follows [of _ ic r]) simp
  with mm show ?thesis by (auto simp: follows_def)
qed

lemma scan_bounds:
  "scan ic r pos rest = Some m \<Longrightarrow>
     pos \<le> m_index m \<and> m_index m \<le> m_end m \<and> m_end m \<le> pos + length rest"
proof (induction rest arbitrary: pos)
  case Nil
  then show ?case using match_at_bounds [of ic r pos "[]" m] by simp
next
  case (Cons x xs)
  show ?case
  proof (cases "match_at ic r pos (x # xs)")
    case None
    with Cons.prems have "scan ic r (Suc pos) xs = Some m" by simp
    from Cons.IH [OF this] show ?thesis by simp
  next
    case (Some m')
    with Cons.prems have "m' = m" by simp
    with Some match_at_bounds [of ic r pos "x # xs" m] show ?thesis by simp
  qed
qed

lemma regexp_exec_bounds:
  assumes "regexp_exec rx s = (Some m, rx')" and "rx' \<noteq> rx"
  shows "rx_lastIndex rx \<le> m_index m \<and> m_index m \<le> m_end m \<and> m_end m \<le> length s
    \<and> rx_global rx \<and> rx' = rx\<lparr>rx_lastIndex := m_end m\<rparr> \<and> rx_lastIndex rx < m_end m"
proof -
  from assms have g: "rx_global rx"
    by (auto simp: regexp_exec_def Let_def split: if_splits option.splits)
  with assms(1) have le: "rx_lastIndex rx \<le> length s"
    and sc: "scan (rx_ignoreCase rx) (rx_regex rx) (rx_lastIndex rx) (drop (rx_lastIndex rx) s) = Some m"
    and rx': "rx' = rx\<lparr>rx_lastIndex := m_end m\<rparr>"
    by (auto simp: regexp_exec_def Let_def split: if_splits option.splits)
  from scan_bounds [OF sc] le have b: "rx_lastIndex rx \<le> m_index m" "m_index m \<le> m_end m"
    "m_end m \<le> length s" by auto
  from rx' assms(2) have "m_end m \<noteq> rx_lastIndex rx" by (cases rx) auto
  with b g rx' show ?thesis by auto
qed

subsection \<open>\<^verbatim>\<open>detectEnvVars\<close>\<close>

text \<open>
  \<open>match_group m k\<close> is \<^verbatim>\<open>match[k]\<close>. \<open>detect_body\<close> is the body of the while loop:
  it returns what the iteration pushes on \<^verbatim>\<open>envVars\<close>, nothing when the iteration ends
  with \<^verbatim>\<open>continue\<close>. An undefined \<^verbatim>\<open>match[2]\<close> would be tested as the text
  \<^verbatim>\<open>undefined\<close>, which \<^verbatim>\<open>isLikelySelector\<close> accepts as an element selector, so the
  iteration would push nothing.
\<close>

definition match_group :: "js_match \<Rightarrow> nat \<Rightarrow> string option" where
  "match_group m k =
     (if k = 0 then Some (m_matched m)
      else if k \<le> length (m_groups m) then m_groups m ! (k - 1) else None)"

definition detect_body :: "EnvVarType \<Rightarrow> string option \<Rightarrow> js_match \<Rightarrow> EnvVar list" where
  "detect_body type roleName match =
     (let fieldContext = match_group match 1 in
      case match_group match 2 of
        None \<Rightarrow> []
      | Some v \<Rightarrow>
          if isLikelySelector v \<or> isCommonTestData v then []
          else [\<lparr>ev_name = generateEnvVarName v type fieldContext roleName, ev_value = v,
                 ev_type = type\<rparr>])"

text \<open>
  The while loop \<^verbatim>\<open>while ((match = pattern.exec(playwrightCode)) !== null)\<close>. The state of
  the loop is the pattern object (its \<^verbatim>\<open>lastIndex\<close>) and the array \<^verbatim>\<open>envVars\<close>. When a
  call of \<^verbatim>\<open>exec\<close> succeeds and leaves the pattern object as it was, every later call
  returns the same match and the loop never ends: the result is \<open>None\<close>.
\<close>

function detect_loop ::
  "regexp \<Rightarrow> EnvVarType \<Rightarrow> string \<Rightarrow> string option \<Rightarrow> EnvVar list \<Rightarrow> EnvVar list option" where
  "detect_loop pattern type playwrightCode roleName envVars =
     (case regexp_exec pattern playwrightCode of
        (None, pattern') \<Rightarrow> Some envVars
      | (Some match, pattern') \<Rightarrow>
          if pattern' = pattern then None
          else detect_loop pattern' type playwrightCode roleName
                 (envVars @ detect_body type roleName match))"
  by pat_completeness auto
termination
proof (relation "measure (\<lambda>(pattern, type, playwrightCode, roleName, envVars).
    Suc (length playwrightCode) - rx_lastIndex pattern)", goal_cases)
  case 1
  show ?case by simp
next
  case (2 pattern type playwrightCode roleName envVars x1 pattern' match)
  from 2(1,2) have "regexp_exec pattern playwrightCode = (Some match, pattern')" by simp
  from regexp_exec_bounds [OF this 2(3)] show ?case by auto
qed

declare detect_loop.simps [simp del]

text \<open>
  \<^verbatim>\<open>fillPatterns.forEach\<close> runs the loop for the email pattern and then for the password
  pattern, on the same array; the result is handed to \<^verbatim>\<open>deduplicateEnvVars\<close>.
\<close>

definition fillPatterns :: "(regexp \<times> EnvVarType) list" where
  "fillPatterns = [(global_regexp emailPattern, Email), (global_regexp passwordPattern, Password)]"

fun forEach_pattern ::
  "string \<Rightarrow> string option \<Rightarrow> (regexp \<times> EnvVarType) list \<Rightarrow> EnvVar list \<Rightarrow> EnvVar list option" where
  "forEach_pattern playwrightCode roleName [] envVars = Some envVars"
| "forEach_pattern playwrightCode roleName ((pattern, type) # ps) envVars =
     (case detect_loop pattern type playwrightCode roleName envVars of
        None \<Rightarrow> None
      | Some envVars' \<Rightarrow> forEach_pattern playwrightCode roleName ps envVars')"

definition detectEnvVars :: "string \<Rightarrow> string option \<Rightarrow> EnvVar list option" where
  "detectEnvVars playwrightCode roleName =
     map_option deduplicateEnvVars (forEach_pattern playwrightCode roleName fillPatterns [])"

subsection \<open>\<^verbatim>\<open>escapeRegex\<close>, \<^verbatim>\<open>replaceWithEnvVars\<close>\<close>

text \<open>
  \<^verbatim>\<open>escapeRegex\<close> replaces every character of the class \<^verbatim>\<open>[.*+?^${}()|[\]\\]\<close> by a
  backslash and the character (the replacement string is a backslash and \<^verbatim>\<open>$&\<close>).
\<close>

definition metachars :: string where
  "metachars = ''.*+?^${}()|[]'' @ [BSL]"

definition escape_src :: string where
  "escape_src = bs ''[.*+?^${}()|[%]%%]''"

definition escape_pattern :: regex where
  "escape_pattern = seqs [RClass False (map CChar metachars)]"

lemma escape_pattern_parses: "parse_regex escape_src = Some escape_pattern"
  by code_simp

definition escapeRegex :: "string \<Rightarrow> string" where
  "escapeRegex s =
     string_replace (global_regexp escape_pattern) (bs ''%$&'') s"

text \<open>
  One iteration of \<^verbatim>\<open>envVars.forEach\<close> in \<^verbatim>\<open>replaceWithEnvVars\<close>: the pattern is built by
  \<^verbatim>\<open>new RegExp\<close> from a quote class in group 1, the escaped value and \<^verbatim>\<open>\1\<close>; the
  replacement string is \<^verbatim>\<open>process.env.\<close> followed by the name. The result is \<open>None\<close>
  when the constructor rejects the pattern source.
\<close>

definition replace_one :: "EnvVar \<Rightarrow> string \<Rightarrow> string option" where
  \<open>replace_one envVar processedCode =
     (case parse_regex (''([\'"`])'' @ escapeRegex (ev_value envVar) @ bs ''%1'') of
        None \<Rightarrow> None
      | Some regex \<Rightarrow>
          Some (string_replace (global_regexp regex) (''process.env.'' @ ev_name envVar)
                  processedCode))\<close>

fun replaceWithEnvVars :: "string \<Rightarrow> EnvVar list \<Rightarrow> string option" where
  "replaceWithEnvVars code [] = Some code"
| "replaceWithEnvVars code (envVar # envVars) =
     (case replace_one envVar code of
        None \<Rightarrow> None
      | Some processedCode \<Rightarrow> replaceWithEnvVars processedCode envVars)"

section \<open>Role registry (\<^verbatim>\<open>src/core/config.ts\<close>)\<close>

text \<open>
  \<^verbatim>\<open>loadConfig\<close> reads the configuration in three steps: \<^verbatim>\<open>fs.access\<close> on
  \<^verbatim>\<open>qa-director.config.ts\<close>; \<^verbatim>\<open>loadTSConfig\<close>, which has esbuild compile the file to
  \<^verbatim>\<open>node_modules/.qa-director/config.mjs\<close> and imports that path; and the schema validation of
  the default export. The path imported is the same at every call, and the module loader
  of Node keeps, for the life of the process, the module it has loaded from a path: only
  the first import of a process evaluates the compiled file, every later one is answered
  with the module of the first, whatever the file holds by then. The state of the model is
  therefore the configuration file together with the loader's entry for that path.

  A compiled module is represented by what \<^verbatim>\<open>loadConfig\<close> observes of it: its evaluation
  throws, or it has a default export, given by the result of \<^verbatim>\<open>QADirectorConfigSchema.parse\<close> on
  it (\<open>None\<close> when the schema rejects it). The parse builds a new object, so the assignments
  of \<^verbatim>\<open>addRole\<close> and \<^verbatim>\<open>removeRole\<close> to \<^verbatim>\<open>config.roles\<close> do not reach the module kept by the
  loader.
\<close>

datatype config_module = Throwing | Exporting "QADirectorConfig option"

text \<open>
  The file is missing, or esbuild fails on it (\<open>Unbuildable\<close>), or it compiles to a module.
\<close>

datatype config_file = Missing | Unbuildable | Source config_module

record registry =
  reg_file :: config_file
  reg_loaded :: "config_module option"

datatype config_error = NoConfigFound

text \<open>
  \<^verbatim>\<open>await import(path.resolve(tempOutPath))\<close> for the module just compiled: the loader's entry
  answers when there is one, otherwise the compiled module is loaded and becomes the entry.
  A module whose evaluation threw stays in the loader as well, and importing it again
  throws again.
\<close>

definition import_module :: "config_module \<Rightarrow> registry \<Rightarrow> config_module \<times> registry" where
  "import_module compiled st =
     (case reg_loaded st of
        Some loaded \<Rightarrow> (loaded, st)
      | None \<Rightarrow> (compiled, st\<lparr>reg_loaded := Some compiled\<rparr>))"

text \<open>
  \<^verbatim>\<open>loadTSConfig\<close> returns the parse of the default export of the module imported; \<open>Inl ()\<close>
  stands for a throw of the build or of the import. The temporary file is removed in the
  \<^verbatim>\<open>finally\<close> block and is not part of the state.
\<close>

definition loadTSConfig :: "registry \<Rightarrow> (unit + QADirectorConfig option) \<times> registry" where
  "loadTSConfig st =
     (case reg_file st of
        Source compiled \<Rightarrow>
          (case import_module compiled st of
             (Throwing, st') \<Rightarrow> (Inl (), st')
           | (Exporting d, st') \<Rightarrow> (Inr d, st'))
      | _ \<Rightarrow> (Inl (), st))"

text \<open>
  \<^verbatim>\<open>loadConfig\<close>: \<^verbatim>\<open>null\<close> (\<open>None\<close>) when the file does not exist, and when the build, the import
  or the schema throws (the \<^verbatim>\<open>catch\<close> logs the error and returns \<^verbatim>\<open>null\<close>).
\<close>

definition loadConfig :: "registry \<Rightarrow> QADirectorConfig option \<times> registry" where
  "loadConfig st =
     (if reg_file st = Missing then (None, st)
      else (case loadTSConfig st of
              (Inl e, st') \<Rightarrow> (None, st')
            | (Inr None, st') \<Rightarrow> (None, st')
            | (Inr (Some config), st') \<Rightarrow> (Some config, st')))"

text \<open>
  \<^verbatim>\<open>saveConfig\<close> writes the file as a module whose default export is the JSON literal of the
  configuration; the model takes that literal to parse to the configuration saved. The
  loader is not touched.
\<close>

definition saveConfig :: "QADirectorConfig \<Rightarrow> registry \<Rightarrow> registry" where
  "saveConfig config st = st\<lparr>reg_file := Source (Exporting (Some config))\<rparr>"

text \<open>
  \<^verbatim>\<open>addRole\<close> and \<^verbatim>\<open>removeRole\<close> return the outcome (the error thrown, or unit) and the
  state when the call ends.
\<close>

definition addRole :: "Role \<Rightarrow> registry \<Rightarrow> (config_error + unit) \<times> registry" where
  "addRole role st =
     (case loadConfig st of
        (None, st') \<Rightarrow> (Inl NoConfigFound, st')
      | (Some config, st') \<Rightarrow>
          (Inr (),
           saveConfig
             (config\<lparr>cfg_roles := filter (\<lambda>r. role_name r \<noteq> role_name role) (cfg_roles config) @ [role]\<rparr>)
             st'))"

definition removeRole :: "string \<Rightarrow> registry \<Rightarrow> (config_error + unit) \<times> registry" where
  "removeRole roleName st =
     (case loadConfig st of
        (None, st') \<Rightarrow> (Inl NoConfigFound, st')
      | (Some config, st') \<Rightarrow>
          (Inr (),
           saveConfig (config\<lparr>cfg_roles := filter (\<lambda>r. role_name r \<noteq> roleName) (cfg_roles config)\<rparr>) st'))"

text \<open>A process that has not imported the configuration yet, with the file given.\<close>

definition fresh_process :: "config_file \<Rightarrow> registry" where
  "fresh_process f = \<lparr>reg_file = f, reg_loaded = None\<rparr>"

section \<open>Properties of the string operations\<close>

lemma js_includes_sublist: "js_includes s sub \<longleftrightarrow> sublist sub s"
  by (induction s) (auto simp: sublist_Cons_right)

lemma lower_char_admin:
  "lower_char c = CHR ''a'' \<longleftrightarrow> c = CHR ''a'' \<or> c = CHR ''A''"
  "lower_char c = CHR ''d'' \<longleftrightarrow> c = CHR ''d'' \<or> c = CHR ''D''"
  "lower_char c = CHR ''m'' \<longleftrightarrow> c = CHR ''m'' \<or> c = CHR ''M''"
  "lower_char c = CHR ''i'' \<longleftrightarrow> c = CHR ''i'' \<or> c = CHR ''I''"
  "lower_char c = CHR ''n'' \<longleftrightarrow> c = CHR ''n'' \<or> c = CHR ''N''"
  by (auto simp: lower_char_def ascii_upper_def ascii_lower_def
        latin1_upper_def latin1_lower_def)

text \<open>
  The claims speak of a string that contains the substring \<^verbatim>\<open>admin\<close> case-insensitively.
  Stated without the program's functions: five consecutive characters that are the letters
  a, d, m, i, n in either case.
\<close>

definition contains_admin_ci :: "string \<Rightarrow> bool" where
  "contains_admin_ci s \<longleftrightarrow>
     (\<exists>pre a d m i n post. s = pre @ [a, d, m, i, n] @ post
        \<and> (a = CHR ''a'' \<or> a = CHR ''A'') \<and> (d = CHR ''d'' \<or> d = CHR ''D'')
        \<and> (m = CHR ''m'' \<or> m = CHR ''M'') \<and> (i = CHR ''i'' \<or> i = CHR ''I'')
        \<and> (n = CHR ''n'' \<or> n = CHR ''N''))"

definition field_contains_admin_ci :: "string option \<Rightarrow> bool" where
  "field_contains_admin_ci fieldContext =
     (case fieldContext of None \<Rightarrow> False | Some fc \<Rightarrow> contains_admin_ci fc)"

lemma map_lower_admin:
  "map lower_char s = pre' @ ''admin'' @ post' \<longleftrightarrow>
    (\<exists>pre a d m i n post. s = pre @ [a, d, m, i, n] @ post \<and> map lower_char pre = pre'
       \<and> map lower_char post = post' \<and> lower_char a = CHR ''a'' \<and> lower_char d = CHR ''d''
       \<and> lower_char m = CHR ''m'' \<and> lower_char i = CHR ''i'' \<and> lower_char n = CHR ''n'')"
  (is "?L \<longleftrightarrow> ?R")
proof
  assume ?L
  then obtain pre r where s: "s = pre @ r" and pre: "map lower_char pre = pre'"
    and r: "map lower_char r = ''admin'' @ post'"
    by (auto simp: map_eq_append_conv)
  from r obtain a d m i n post where "r = [a, d, m, i, n] @ post" "map lower_char post = post'"
    "lower_char a = CHR ''a''" "lower_char d = CHR ''d''" "lower_char m = CHR ''m''"
    "lower_char i = CHR ''i''" "lower_char n = CHR ''n''"
    by (auto simp: map_eq_Cons_conv)
  with s pre show ?R by blast
next
  assume ?R
  then show ?L by auto
qed

lemma includes_admin_ci: "js_includes (toLowerCase s) ''admin'' \<longleftrightarrow> contains_admin_ci s"
  unfolding js_includes_sublist sublist_def toLowerCase_def contains_admin_ci_def map_lower_admin
  unfolding lower_char_admin by blast

lemma admin_context_ci:
  "admin_context v fieldContext \<longleftrightarrow> field_contains_admin_ci fieldContext \<or> contains_admin_ci v"
  by (simp add: admin_context_def field_contains_admin_ci_def includes_admin_ci split: option.splits)

section \<open>Properties of de-duplication\<close>

lemma dedup_loop_acc: "dedup_loop sn sv acc xs = acc @ dedup_loop sn sv [] xs"
proof (induction xs arbitrary: sn sv acc)
  case Nil
  show ?case by simp
next
  case (Cons e xs)
  show ?case
    using Cons.IH [of "insert (ev_name e) sn" "insert (ev_value e) sv" "acc @ [e]"]
      Cons.IH [of "insert (ev_name e) sn" "insert (ev_value e) sv" "[e]"]
      Cons.IH [of sn sv acc]
    by simp
qed

lemma dedup_loop_snoc:
  "dedup_loop sn sv [] (xs @ [e]) =
     (if ev_name e \<in> sn \<union> ev_name ` set (dedup_loop sn sv [] xs)
        \<or> ev_value e \<in> sv \<union> ev_value ` set (dedup_loop sn sv [] xs)
      then dedup_loop sn sv [] xs else dedup_loop sn sv [] xs @ [e])"
proof (induction xs arbitrary: sn sv)
  case Nil
  show ?case by simp
next
  case (Cons x xs)
  show ?case
  proof (cases "ev_name x \<notin> sn \<and> ev_value x \<notin> sv")
    case True
    then show ?thesis
      using Cons.IH [of "insert (ev_name x) sn" "insert (ev_value x) sv"]
        dedup_loop_acc [of "insert (ev_name x) sn" "insert (ev_value x) sv" "[x]"]
      by auto
  next
    case False
    then show ?thesis using Cons.IH [of sn sv] by auto
  qed
qed

lemma dedup_snoc:
  "deduplicateEnvVars (xs @ [e]) =
     (if ev_name e \<in> ev_name ` set (deduplicateEnvVars xs)
        \<or> ev_value e \<in> ev_value ` set (deduplicateEnvVars xs)
      then deduplicateEnvVars xs else deduplicateEnvVars xs @ [e])"
  using dedup_loop_snoc [of "{}" "{}" xs e] by (simp add: deduplicateEnvVars_def)

lemma dedup_prefix: "prefix (deduplicateEnvVars xs) (deduplicateEnvVars (xs @ ys))"
proof (induction ys rule: rev_induct)
  case Nil
  show ?case by simp
next
  case (snoc y ys)
  have "prefix (deduplicateEnvVars (xs @ ys)) (deduplicateEnvVars ((xs @ ys) @ [y]))"
    unfolding dedup_snoc [of "xs @ ys" y] by simp
  with snoc show ?case by (metis append_assoc prefix_order.trans)
qed

lemma dedup_subseq: "subseq (deduplicateEnvVars xs) xs"
proof (induction xs rule: rev_induct)
  case Nil
  show ?case by (simp add: deduplicateEnvVars_def)
next
  case (snoc x xs)
  then show ?case
    unfolding dedup_snoc [of xs x]
    by (auto intro: list_emb_append2 simp: list_emb_append_mono)
qed

text \<open>
  Claim C3. \<^verbatim>\<open>deduplicateEnvVars\<close> returns the subsequence in which the first occurrence
  of a name or of a value wins: the entry that follows a prefix of the input is kept if and
  only if neither its name nor its value occurs in an entry kept from that prefix (so it is
  dropped as soon as one of the two was seen, whatever the other field is), nothing that
  comes later changes what was kept, and the output is a subsequence of the input.
\<close>

theorem deduplicateEnvVars_first_wins:
  "deduplicateEnvVars [] = []
   \<and> deduplicateEnvVars (xs @ [e]) =
       (if ev_name e \<in> ev_name ` set (deduplicateEnvVars xs)
          \<or> ev_value e \<in> ev_value ` set (deduplicateEnvVars xs)
        then deduplicateEnvVars xs else deduplicateEnvVars xs @ [e])
   \<and> prefix (deduplicateEnvVars xs) (deduplicateEnvVars (xs @ ys))
   \<and> subseq (deduplicateEnvVars xs) xs"
proof -
  have "deduplicateEnvVars [] = []" by (simp add: deduplicateEnvVars_def)
  then show ?thesis
    using dedup_snoc [of xs e] dedup_prefix [of xs ys] dedup_subseq [of xs] by blast
qed

theorem deduplicateEnvVars_first_wins_witness:
  "deduplicateEnvVars
     ([\<lparr>ev_name = ''QA_USER_EMAIL'', ev_value = ''bob@corp.io'', ev_type = Email\<rparr>]
      @ [\<lparr>ev_name = ''QA_USER_PASSWORD'', ev_value = ''bob@corp.io'', ev_type = Password\<rparr>])
   = [\<lparr>ev_name = ''QA_USER_EMAIL'', ev_value = ''bob@corp.io'', ev_type = Email\<rparr>]"
  using deduplicateEnvVars_first_wins
    [of "[\<lparr>ev_name = ''QA_USER_EMAIL'', ev_value = ''bob@corp.io'', ev_type = Email\<rparr>]"
        "\<lparr>ev_name = ''QA_USER_PASSWORD'', ev_value = ''bob@corp.io'', ev_type = Password\<rparr>" "[]"]
  by (simp add: deduplicateEnvVars_def)

text \<open>
  Claim C7. \<^verbatim>\<open>deduplicateEnvVars\<close> is idempotent: applied to its own output it returns
  that output.
\<close>

theorem deduplicateEnvVars_idempotent:
  "deduplicateEnvVars (deduplicateEnvVars xs) = deduplicateEnvVars xs"
proof (induction xs rule: rev_induct)
  case Nil
  show ?case by (simp add: deduplicateEnvVars_def)
next
  case (snoc x xs)
  show ?case
  proof (cases "ev_name x \<in> ev_name ` set (deduplicateEnvVars xs)
      \<or> ev_value x \<in> ev_value ` set (deduplicateEnvVars xs)")
    case True
    then show ?thesis using snoc.IH by (simp add: dedup_snoc [of xs x])
  next
    case False
    then show ?thesis
      using snoc.IH by (simp add: dedup_snoc [of xs x] dedup_snoc [of "deduplicateEnvVars xs" x])
  qed
qed

section \<open>Properties of naming\<close>

text \<open>
  Claim C6. The name is a function of the value, the kind, the field context and the role
  name. For the role \<^verbatim>\<open>checkout\<close> and the kind email, when neither the field context nor
  the value contains \<^verbatim>\<open>admin\<close> (case-insensitively), the name is \<^verbatim>\<open>QA_CHECKOUT_EMAIL\<close>;
  when the field context or the value contains \<^verbatim>\<open>admin\<close> (case-insensitively), the name
  is \<^verbatim>\<open>QA_ADMIN_EMAIL\<close> for an email and \<^verbatim>\<open>QA_ADMIN_PASSWORD\<close> for a password, whatever
  the role name is.
\<close>

theorem generateEnvVarName_deterministic:
  "(\<not> field_contains_admin_ci fieldContext \<and> \<not> contains_admin_ci v \<longrightarrow>
      generateEnvVarName v Email fieldContext (Some ''checkout'') = ''QA_CHECKOUT_EMAIL'')
   \<and> (field_contains_admin_ci fieldContext \<or> contains_admin_ci v \<longrightarrow>
      generateEnvVarName v Email fieldContext roleName = ''QA_ADMIN_EMAIL''
      \<and> generateEnvVarName v Password fieldContext roleName = ''QA_ADMIN_PASSWORD'')"
proof -
  have "toUpperCase ''checkout'' = ''CHECKOUT''"
    by (simp add: toUpperCase_def upper_units_def sharp_s_def upper_char_def ascii_upper_def ascii_lower_def
        latin1_upper_def latin1_lower_def)
  then show ?thesis
    by (simp add: admin_context_ci rolePrefix_def)
qed

theorem generateEnvVarName_deterministic_witness:
  "\<not> field_contains_admin_ci (Some ''Email'') \<and> \<not> contains_admin_ci ''bob@corp.io''
   \<and> generateEnvVarName ''bob@corp.io'' Email (Some ''Email'') (Some ''checkout'') = ''QA_CHECKOUT_EMAIL''
   \<and> field_contains_admin_ci (Some ''Admin Email'')
   \<and> generateEnvVarName ''bob@corp.io'' Email (Some ''Admin Email'') (Some ''user'') = ''QA_ADMIN_EMAIL''
   \<and> generateEnvVarName ''pw9!'' Password (Some ''Admin Password'') (Some ''user'') = ''QA_ADMIN_PASSWORD''"
proof -
  have a: "\<not> field_contains_admin_ci (Some ''Email'')"
    by (simp add: field_contains_admin_ci_def includes_admin_ci [symmetric] toLowerCase_def
        lower_char_def ascii_upper_def ascii_lower_def
        latin1_upper_def latin1_lower_def)
  have b: "\<not> contains_admin_ci ''bob@corp.io''"
    by (simp add: includes_admin_ci [symmetric] toLowerCase_def
        lower_char_def ascii_upper_def ascii_lower_def
        latin1_upper_def latin1_lower_def)
  have c: "field_contains_admin_ci (Some ''Admin Email'')"
    by (simp add: field_contains_admin_ci_def includes_admin_ci [symmetric] toLowerCase_def
        lower_char_def ascii_upper_def ascii_lower_def
        latin1_upper_def latin1_lower_def)
  have d: "field_contains_admin_ci (Some ''Admin Password'')"
    by (simp add: field_contains_admin_ci_def includes_admin_ci [symmetric] toLowerCase_def
        lower_char_def ascii_upper_def ascii_lower_def
        latin1_upper_def latin1_lower_def)
  show ?thesis
    using a b c d
      generateEnvVarName_deterministic [of "Some ''Email''" "''bob@corp.io''" "Some ''user''"]
      generateEnvVarName_deterministic [of "Some ''Admin Email''" "''bob@corp.io''" "Some ''user''"]
      generateEnvVarName_deterministic [of "Some ''Admin Password''" "''pw9!''" "Some ''user''"]
    by blast
qed

section \<open>Properties of the role registry\<close>

subsection \<open>The registry and the module loader\<close>

text \<open>
  A load that returns a configuration leaves the file as it is and the loader holding a
  module that parses to that configuration; from then on every load of a file that
  compiles returns the same configuration, whatever the file holds.
\<close>

lemma loadConfig_Some:
  assumes "fst (loadConfig st) = Some config"
  shows "reg_file (snd (loadConfig st)) = reg_file st"
    and "reg_loaded (snd (loadConfig st)) = Some (Exporting (Some config))"
    and "\<exists>compiled. reg_file st = Source compiled"
  using assms
  by (auto simp: loadConfig_def loadTSConfig_def import_module_def
      split: if_splits config_file.splits config_module.splits option.splits)

lemma loadConfig_loaded:
  assumes "reg_loaded st = Some (Exporting (Some config))" and "reg_file st = Source compiled"
  shows "loadConfig st = (Some config, st)"
  using assms by (simp add: loadConfig_def loadTSConfig_def import_module_def)

lemma loadConfig_first:
  "loadConfig (fresh_process (Source (Exporting (Some config))))
     = (Some config,
        \<lparr>reg_file = Source (Exporting (Some config)), reg_loaded = Some (Exporting (Some config))\<rparr>)"
  by (simp add: loadConfig_def loadTSConfig_def import_module_def fresh_process_def)

lemma loadConfig_None_file:
  assumes "fst (loadConfig st) = None"
  shows "reg_file (snd (loadConfig st)) = reg_file st"
  using assms
  by (auto simp: loadConfig_def loadTSConfig_def import_module_def
      split: if_splits config_file.splits config_module.splits option.splits)

lemma loadConfig_Missing: "reg_file st = Missing \<Longrightarrow> loadConfig st = (None, st)"
  by (simp add: loadConfig_def)

lemma addRole_Some:
  assumes "fst (loadConfig st) = Some config"
  shows "addRole role st =
     (Inr (),
      saveConfig
        (config\<lparr>cfg_roles := filter (\<lambda>r. role_name r \<noteq> role_name role) (cfg_roles config) @ [role]\<rparr>)
        (snd (loadConfig st)))"
  using assms by (cases "loadConfig st") (simp add: addRole_def)

lemma removeRole_Some:
  assumes "fst (loadConfig st) = Some config"
  shows "removeRole roleName st =
     (Inr (),
      saveConfig (config\<lparr>cfg_roles := filter (\<lambda>r. role_name r \<noteq> roleName) (cfg_roles config)\<rparr>)
        (snd (loadConfig st)))"
  using assms by (cases "loadConfig st") (simp add: removeRole_def)

lemma saveConfig_fields:
  "reg_file (saveConfig config st) = Source (Exporting (Some config))"
  "reg_loaded (saveConfig config st) = reg_loaded st"
  by (simp_all add: saveConfig_def)


definition demo_config :: QADirectorConfig where
  "demo_config =
     \<lparr>cfg_baseURL = ''http://localhost:3000'', cfg_testDir = ''./e2e'',
      cfg_roles = [\<lparr>role_name = ''admin'', role_storagePath = ''auth/storageState.admin.json'',
                    role_testMatch = None, role_envVars = None, role_folder = None\<rparr>],
      cfg_authDir = ''auth'',
      cfg_githubActions = \<lparr>ga_enabled = False, ga_path = ''.github/workflows/e2e.yml''\<rparr>,
      cfg_setup = \<lparr>setup_path = ''./e2e/setup.ts'', setup_enabled = True, setup_projectName = None\<rparr>,
      cfg_envDir = ''.env.qa'', cfg_playwrightConfig = ''playwright.config.ts''\<rparr>"

definition demo_user :: "string \<Rightarrow> Role" where
  "demo_user p =
     \<lparr>role_name = ''user'', role_storagePath = p, role_testMatch = None, role_envVars = None,
      role_folder = None\<rparr>"

definition demo_process :: registry where
  "demo_process = fresh_process (Source (Exporting (Some demo_config)))"


text \<open>
  In the first load of a process the configuration returned is the one the file holds, and
  \<^verbatim>\<open>removeRole\<close> of a name that no role has writes that configuration back.
\<close>

lemma removeRole_absent_first_load:
  assumes "reg_file st = Source (Exporting (Some config))" and "reg_loaded st = None"
    and "roleName \<notin> set (map role_name (cfg_roles config))"
  shows "fst (removeRole roleName st) = Inr ()"
    and "reg_file (snd (removeRole roleName st)) = reg_file st"
proof -
  have l: "fst (loadConfig st) = Some config"
    using assms(1,2) by (simp add: loadConfig_def loadTSConfig_def import_module_def)
  have "filter (\<lambda>r. role_name r \<noteq> roleName) (cfg_roles config) = cfg_roles config"
    using assms(3) by (auto simp: filter_id_conv)
  with removeRole_Some [OF l, of roleName]
  have r: "removeRole roleName st = (Inr (), saveConfig config (snd (loadConfig st)))" by simp
  show "fst (removeRole roleName st) = Inr ()" by (simp add: r)
  show "reg_file (snd (removeRole roleName st)) = reg_file st"
    by (simp add: r saveConfig_fields assms(1))
qed

text \<open>
  After an earlier load in the same process the configuration returned is the one of that
  load. \<open>stale_added\<close> is the state after \<^verbatim>\<open>addRole\<close> of the role \<^verbatim>\<open>user\<close> in a process started
  on a file whose only role is \<^verbatim>\<open>admin\<close>: the file holds the roles \<^verbatim>\<open>admin\<close> and \<^verbatim>\<open>user\<close>, the
  loader the module with \<^verbatim>\<open>admin\<close> alone.
\<close>

definition stale_added :: registry where
  "stale_added = snd (addRole (demo_user ''auth/storageState.user.json'') demo_process)"

definition two_roles :: QADirectorConfig where
  "two_roles = demo_config\<lparr>cfg_roles := cfg_roles demo_config @ [demo_user ''auth/storageState.user.json'']\<rparr>"

text \<open>
  Claim C8. \<^verbatim>\<open>removeRole\<close> of a name that no role of the configuration has should leave the
  roles list unchanged and raise no error. In the state \<open>stale_added\<close> the file holds the two
  roles \<^verbatim>\<open>admin\<close> and \<^verbatim>\<open>user\<close> (a process started on it loads them), neither is named \<^verbatim>\<open>ghost\<close>,
  and \<^verbatim>\<open>removeRole\<close> of \<^verbatim>\<open>ghost\<close> raises no error but writes the configuration with the role
  \<^verbatim>\<open>admin\<close> alone: the role \<^verbatim>\<open>user\<close> is lost.
\<close>

theorem removeRole_absent_stale:
  "reg_file stale_added = Source (Exporting (Some two_roles))
   \<and> fst (loadConfig (fresh_process (reg_file stale_added))) = Some two_roles
   \<and> map role_name (cfg_roles two_roles) = [''admin'', ''user'']
   \<and> fst (removeRole ''ghost'' stale_added) = Inr ()
   \<and> reg_file (snd (removeRole ''ghost'' stale_added)) = Source (Exporting (Some demo_config))
   \<and> map role_name (cfg_roles demo_config) = [''admin'']"
proof -
  have h: "fst (loadConfig demo_process) = Some demo_config"
    by (simp add: demo_process_def loadConfig_first)
  have keep: "filter (\<lambda>r. role_name r \<noteq> role_name (demo_user ''auth/storageState.user.json''))
                (cfg_roles demo_config) = cfg_roles demo_config"
    by (simp add: demo_config_def demo_user_def)
  have added: "stale_added = saveConfig two_roles (snd (loadConfig demo_process))"
    using addRole_Some [OF h, of "demo_user ''auth/storageState.user.json''"]
    by (simp add: stale_added_def two_roles_def keep)
  have written: "reg_file stale_added = Source (Exporting (Some two_roles))"
    by (simp add: added saveConfig_fields)
  have loaded: "reg_loaded stale_added = Some (Exporting (Some demo_config))"
    using loadConfig_Some(2) [OF h] by (simp add: added saveConfig_fields)
  have fresh: "fst (loadConfig (fresh_process (reg_file stale_added))) = Some two_roles"
    by (simp add: written loadConfig_first)
  have names: "map role_name (cfg_roles two_roles) = [''admin'', ''user'']"
    by (simp add: two_roles_def demo_config_def demo_user_def)
  have stale: "loadConfig stale_added = (Some demo_config, stale_added)"
    by (rule loadConfig_loaded [OF loaded written])
  have ghost: "filter (\<lambda>r. role_name r \<noteq> ''ghost'') (cfg_roles demo_config) = cfg_roles demo_config"
    by (simp add: demo_config_def)
  have removed: "removeRole ''ghost'' stale_added = (Inr (), saveConfig demo_config stale_added)"
    using removeRole_Some [of stale_added demo_config "''ghost''"] by (simp add: stale ghost)
  have r1: "fst (removeRole ''ghost'' stale_added) = Inr ()" by (simp add: removed)
  have r2: "reg_file (snd (removeRole ''ghost'' stale_added)) = Source (Exporting (Some demo_config))"
    by (simp add: removed saveConfig_fields)
  have r3: "map role_name (cfg_roles demo_config) = [''admin'']" by (simp add: demo_config_def)
  from written fresh names r1 r2 r3 show ?thesis by blast
qed

text \<open>
  Claim C9. When \<^verbatim>\<open>loadConfig\<close> returns no configuration, \<^verbatim>\<open>addRole\<close> and \<^verbatim>\<open>removeRole\<close> end
  with the configuration-not-found error as their outcome and the file is left as it was:
  nothing is written. When the file does not exist the whole state is left as it was.
\<close>

theorem registry_no_config:
  assumes "fst (loadConfig st) = None"
  shows "fst (addRole role st) = Inl NoConfigFound \<and> reg_file (snd (addRole role st)) = reg_file st
     \<and> fst (removeRole roleName st) = Inl NoConfigFound
     \<and> reg_file (snd (removeRole roleName st)) = reg_file st
     \<and> (reg_file st = Missing \<longrightarrow>
          addRole role st = (Inl NoConfigFound, st) \<and> removeRole roleName st = (Inl NoConfigFound, st))"
proof -
  have a: "addRole role st = (Inl NoConfigFound, snd (loadConfig st))"
    using assms by (cases "loadConfig st") (simp add: addRole_def)
  have r: "removeRole roleName st = (Inl NoConfigFound, snd (loadConfig st))"
    using assms by (cases "loadConfig st") (simp add: removeRole_def)
  show ?thesis
    using loadConfig_None_file [OF assms] by (auto simp: a r loadConfig_Missing)
qed

theorem registry_no_config_witness:
  "fst (loadConfig (fresh_process Missing)) = None
   \<and> reg_file (fresh_process Missing) = Missing
   \<and> addRole (demo_user ''a.json'') (fresh_process Missing) = (Inl NoConfigFound, fresh_process Missing)
   \<and> removeRole ''user'' (fresh_process Missing) = (Inl NoConfigFound, fresh_process Missing)"
proof -
  have m: "reg_file (fresh_process Missing) = Missing" by (simp add: fresh_process_def)
  have h: "fst (loadConfig (fresh_process Missing)) = None" by (simp add: loadConfig_Missing m)
  show ?thesis
    using h m registry_no_config [OF h, of "demo_user ''a.json''" "''user''"] by simp
qed
section \<open>Properties of the rewriting\<close>

subsection \<open>\<^verbatim>\<open>escapeRegex\<close> puts a backslash before each metacharacter\<close>

definition escape_char :: "char \<Rightarrow> string" where
  "escape_char c = (if c \<in> set metachars then [BSL, c] else [c])"

lemma seqs_Nil: "seqs [] = REmpty"
  by (simp add: seqs_def)

lemma seqs_Cons: "seqs (r # rs) = RSeq r (seqs rs)"
  by (simp add: seqs_def)

lemma class_has_chars: "class_has False (map CChar cs) x \<longleftrightarrow> x \<in> set cs"
  by (induction cs) (auto simp: class_has_def)

lemma groups_escape_pattern: "groups escape_pattern = []"
  by (simp add: escape_pattern_def seqs_Cons seqs_Nil)

lemma match_at_escape:
  "match_at False escape_pattern pos rest =
     (case rest of
        [] \<Rightarrow> None
      | x # xs \<Rightarrow>
          if x \<in> set metachars
          then Some \<lparr>m_index = pos, m_end = Suc pos, m_matched = [x], m_groups = []\<rparr>
          else None)"
  by (cases rest)
    (simp_all add: match_at_def escape_pattern_def seqs_Cons seqs_Nil match_char_def
      class_has_chars group_list_def)

lemma subst_escape: "get_substitution [x] s pos [] (bs ''%$&'') = [BSL, x]"
  by (simp add: bs_def BSL_def)

lemma replace_from_escape:
  "replace_from True False escape_pattern (bs ''%$&'') s pos rest = concat (map escape_char rest)"
proof (induction rest arbitrary: pos)
  case Nil
  show ?case by (subst replace_from.simps) (simp add: match_at_escape)
next
  case (Cons x xs)
  have "escape_char x = (if x \<in> set metachars then [BSL, x] else [x])"
    by (simp add: escape_char_def)
  then show ?case
    by (subst replace_from.simps) (simp add: match_at_escape subst_escape Cons.IH)
qed

lemma escapeRegex_eq: "escapeRegex s = concat (map escape_char s)"
  by (simp add: escapeRegex_def string_replace_def global_regexp_def replace_from_escape)

subsection \<open>The pattern source of \<^verbatim>\<open>replaceWithEnvVars\<close> reads as a literal between quotes\<close>

text \<open>
  The tree that the pattern source compiles to, for every value: group 1 with the quote
  class, the characters of the value one by one, the back-reference to group 1.
\<close>

definition quoted_pattern :: "string \<Rightarrow> regex" where
  "quoted_pattern v = seqs (RGroup 1 (seqs [quote_class]) # lits v @ [RBackref 1])"

lemma not_alnum_meta: "c \<in> set metachars \<Longrightarrow> \<not> alnum c"
  by (auto simp: metachars_def alnum_def BSL_def ascii_upper_def ascii_lower_def ascii_digits_def)


lemma meta_cases:
  "c \<in> set metachars \<longleftrightarrow> c = CHR ''.'' \<or> c = CHR ''*'' \<or> c = CHR ''+'' \<or> c = CHR ''?''
     \<or> c = CHR ''^'' \<or> c = CHR ''$'' \<or> c = CHR ''{'' \<or> c = CHR ''}'' \<or> c = CHR ''(''
     \<or> c = CHR '')'' \<or> c = CHR ''|'' \<or> c = CHR ''['' \<or> c = CHR '']'' \<or> c = BSL"
  by (simp add: metachars_def)

lemma atom_escape_meta: "c \<in> set metachars \<Longrightarrow> atom_escape c cs = Some (TChar c)"
proof -
  assume m: "c \<in> set metachars"
  then have "\<not> alnum c" by (rule not_alnum_meta)
  moreover from m have "c \<noteq> CHR ''s''" "c \<noteq> CHR ''S''" "c \<notin> set ''123456789''"
    by (auto simp: meta_cases BSL_def)
  ultimately show ?thesis by (simp add: atom_escape_def)
qed

lemma plain_token_other:
  "c \<notin> set metachars \<Longrightarrow> plain_token c = Some (TChar c)"
  by (simp add: meta_cases plain_token_def syntax_chars_def)


lemma lex_escape_char:
  "lex (escape_char c @ cs) = cons_opt (Some (TChar c)) (lex cs)"
proof (cases "c \<in> set metachars")
  case True
  then show ?thesis by (simp add: escape_char_def atom_escape_meta)
next
  case False
  then have "c \<noteq> BSL" "c \<noteq> CHR ''[''" "c \<noteq> CHR ''(''"
    by (auto simp: meta_cases)
  with False show ?thesis by (simp add: escape_char_def plain_token_other)
qed

lemma lex_escaped:
  "lex (concat (map escape_char v) @ cs) = map_option ((@) (map TChar v)) (lex cs)"
proof (induction v)
  case Nil
  show ?case by (simp add: option.map_ident)
next
  case (Cons c v)
  have "lex (concat (map escape_char (c # v)) @ cs)
      = cons_opt (Some (TChar c)) (lex (concat (map escape_char v) @ cs))"
    using lex_escape_char [of c "concat (map escape_char v) @ cs"] by simp
  also have "\<dots> = map_option ((@) (map TChar (c # v))) (lex cs)"
    unfolding Cons.IH by (cases "lex cs") (simp_all add: cons_opt_def)
  finally show ?case .
qed


lemma lex_backref_tail: "lex (bs ''%1'') = Some [TBackref 1]"
  by (simp add: bs_def BSL_def atom_escape_def cons_opt_def digit_val_def)

lemma lex_quote_group:
  \<open>lex (''([\'"`])'' @ cs) =
     map_option ((@) [TOpen, TClass False (map CChar quote_chars), TClose]) (lex cs)\<close>
  by (cases "lex cs")
    (simp_all add: BSL_def cons_opt_def plain_token_def quote_chars_def SQ_def DQ_def BQ_def)


lemma lex_quoted_src:
  \<open>lex (''([\'"`])'' @ concat (map escape_char v) @ bs ''%1'')
     = Some ([TOpen, TClass False (map CChar quote_chars), TClose] @ map TChar v @ [TBackref 1])\<close>
  unfolding lex_quote_group lex_escaped lex_backref_tail by simp

lemma parse_tokens_chars:
  "parse_tokens stack alts items n (map TChar v @ ts)
     = parse_tokens stack alts (rev (map (\<lambda>c. PAtom (RChar c)) v) @ items) n ts"
  by (induction v arbitrary: items) simp_all

lemma groups_lits: "groups (seqs (lits v @ rs)) = groups (seqs rs)"
  by (induction v) (simp_all add: lits_def seqs_Cons)

lemma backrefs_lits: "backrefs (seqs (lits v @ rs)) = backrefs (seqs rs)"
  by (induction v) (simp_all add: lits_def seqs_Cons)

lemma groups_quoted: "groups (quoted_pattern v) = [1]"
  by (simp add: quoted_pattern_def seqs_Cons groups_lits seqs_Nil quote_class_def)

lemma backrefs_quoted: "backrefs (quoted_pattern v) = [1]"
  by (simp add: quoted_pattern_def seqs_Cons backrefs_lits seqs_Nil quote_class_def)


lemma close_alt_chars:
  "close_alt (PAtom b # rev (map (\<lambda>c. PAtom (RChar c)) v) @ [PAtom g]) = seqs (g # lits v @ [b])"
  by (simp add: close_alt_def lits_def comp_def)

lemma parse_quoted_tokens:
  "parse_tokens [] [] [] 1
     ([TOpen, TClass False (map CChar quote_chars), TClose] @ map TChar v @ [TBackref 1])
   = Some (quoted_pattern v)"
proof -
  have "parse_tokens [] [] [] 1
     ([TOpen, TClass False (map CChar quote_chars), TClose] @ map TChar v @ [TBackref 1])
     = parse_tokens [] [] [PAtom (RGroup 1 (seqs [quote_class]))] 2 (map TChar v @ [TBackref 1])"
    by (simp add: close_frame_def close_alt_def quote_class_def numeral_2_eq_2)
  also have "\<dots> = Some (close_frame []
      (PAtom (RBackref 1) # rev (map (\<lambda>c. PAtom (RChar c)) v) @ [PAtom (RGroup 1 (seqs [quote_class]))]))"
    unfolding parse_tokens_chars by simp
  also have "\<dots> = Some (quoted_pattern v)"
    unfolding close_frame_def close_alt_chars by (simp add: quoted_pattern_def)
  finally show ?thesis .
qed


lemma parse_quoted_src:
  \<open>parse_regex (''([\'"`])'' @ escapeRegex v @ bs ''%1'') = Some (quoted_pattern v)\<close>
proof -
  have "list_all (\<lambda>k. k \<in> set (groups (quoted_pattern v))) (backrefs (quoted_pattern v))"
    by (simp add: groups_quoted backrefs_quoted)
  then show ?thesis
    unfolding parse_regex_def escapeRegex_eq lex_quoted_src option.case parse_quoted_tokens
    by simp
qed

subsection \<open>Matching the pattern\<close>

lemma matcher_lits:
  "matcher False (seqs (lits v @ rs)) st =
     (if prefix v (st_rest st)
      then matcher False (seqs rs)
             (st\<lparr>st_pos := st_pos st + length v, st_rest := drop (length v) (st_rest st)\<rparr>)
      else [])"
proof (induction v arbitrary: st)
  case Nil
  show ?case by (simp add: lits_def)
next
  case (Cons c v)
  show ?case
  proof (cases "st_rest st")
    case Nil
    then show ?thesis by (simp add: lits_def seqs_Cons match_char_def)
  next
    case (Cons x xs)
    then show ?thesis
      using Cons.IH [of "st\<lparr>st_pos := Suc (st_pos st), st_rest := xs\<rparr>"]
      by (simp add: lits_def seqs_Cons match_char_def canonicalize_def)
  qed
qed


text \<open>The text starts with a quote character, the value and the same quote character.\<close>

definition starts_quoted :: "string \<Rightarrow> string \<Rightarrow> bool" where
  "starts_quoted v s \<longleftrightarrow>
     (case s of [] \<Rightarrow> False | x # xs \<Rightarrow> x \<in> set quote_chars \<and> prefix (v @ [x]) xs)"

lemma matcher_quoted_tail:
  "matcher False (seqs (lits v @ [RBackref 1])) \<lparr>st_pos = p, st_rest = xs, st_caps = [(1, [x])]\<rparr> =
     (if prefix (v @ [x]) xs
      then [\<lparr>st_pos = p + length v + 1, st_rest = drop (Suc (length v)) xs, st_caps = [(1, [x])]\<rparr>]
      else [])"
proof (cases "prefix v xs")
  case False
  then have "\<not> prefix (v @ [x]) xs" by (auto simp: prefix_def)
  with False show ?thesis by (simp add: matcher_lits)
next
  case True
  then obtain ys where xs: "xs = v @ ys" by (auto simp: prefix_def)
  show ?thesis
    by (cases ys) (auto simp: xs matcher_lits seqs_Cons seqs_Nil match_backref_def canonicalize_def)
qed

lemma match_at_quoted:
  "match_at False (quoted_pattern v) pos rest =
     (if starts_quoted v rest
      then Some \<lparr>m_index = pos, m_end = pos + length v + 2,
                  m_matched = take (length v + 2) rest, m_groups = [Some [hd rest]]\<rparr>
      else None)"
proof (cases rest)
  case Nil
  then show ?thesis
    by (simp add: match_at_def quoted_pattern_def seqs_Cons seqs_Nil quote_class_def match_char_def
        starts_quoted_def)
next
  case (Cons x xs)
  show ?thesis
  proof (cases "x \<in> set quote_chars")
    case False
    then show ?thesis
      by (simp add: Cons match_at_def quoted_pattern_def seqs_Cons seqs_Nil quote_class_def
          match_char_def class_has_chars starts_quoted_def)
  next
    case True
    have g: "matcher False (RGroup 1 (seqs [quote_class])) \<lparr>st_pos = pos, st_rest = x # xs, st_caps = []\<rparr>
        = [\<lparr>st_pos = Suc pos, st_rest = xs, st_caps = [(1, [x])]\<rparr>]"
      using True
      by (simp add: seqs_Cons seqs_Nil quote_class_def match_char_def class_has_chars capture_def)
    have "matcher False (quoted_pattern v) \<lparr>st_pos = pos, st_rest = x # xs, st_caps = []\<rparr>
        = concat (map (matcher False (seqs (lits v @ [RBackref 1])))
            (matcher False (RGroup 1 (seqs [quote_class]))
               \<lparr>st_pos = pos, st_rest = x # xs, st_caps = []\<rparr>))"
      by (simp only: quoted_pattern_def seqs_Cons matcher.simps)
    also have "\<dots> = matcher False (seqs (lits v @ [RBackref 1]))
        \<lparr>st_pos = Suc pos, st_rest = xs, st_caps = [(1, [x])]\<rparr>"
      unfolding g by simp
    finally have m: "matcher False (quoted_pattern v) \<lparr>st_pos = pos, st_rest = x # xs, st_caps = []\<rparr>
        = (if prefix (v @ [x]) xs
           then [\<lparr>st_pos = Suc pos + length v + 1, st_rest = drop (Suc (length v)) xs,
                   st_caps = [(1, [x])]\<rparr>]
           else [])"
      unfolding matcher_quoted_tail .
    show ?thesis
      unfolding match_at_def Cons m using True
      by (simp add: starts_quoted_def group_list_def groups_quoted)
  qed
qed


subsection \<open>Redaction, stated on the text\<close>

text \<open>
  The rewriting in the words of the specification, without regular expressions: walking the
  text from the left, an occurrence of the value between two equal quote characters is
  replaced by the reference and the walk goes on after the closing quote; any other
  character is kept.
\<close>

function redact :: "string \<Rightarrow> string \<Rightarrow> string \<Rightarrow> string" where
  "redact v ref [] = []"
| "redact v ref (x # xs) =
     (if x \<in> set quote_chars \<and> prefix (v @ [x]) xs
      then ref @ redact v ref (drop (Suc (length v)) xs)
      else x # redact v ref xs)"
  by pat_completeness auto
termination
  by (relation "measure (\<lambda>(v, ref, s). length s)") auto

lemma get_substitution_plain:
  "CHR ''$'' \<notin> set t \<Longrightarrow> get_substitution matched str position caps t = t"
  by (induction matched str position caps t rule: get_substitution.induct) auto

lemma replace_from_quoted:
  "CHR ''$'' \<notin> set t \<Longrightarrow>
     replace_from True False (quoted_pattern v) t s pos rest = redact v t rest"
proof (induction v t rest arbitrary: pos rule: redact.induct)
  case (1 v ref)
  show ?case
    by (subst replace_from.simps) (simp add: match_at_quoted starts_quoted_def)
next
  case (2 v ref x xs)
  show ?case
  proof (cases "x \<in> set quote_chars \<and> prefix (v @ [x]) xs")
    case True
    then show ?thesis
      using 2(1) [OF True 2(3), of "pos + length v + 2"] 2(3)
      by (subst replace_from.simps)
        (simp add: match_at_quoted starts_quoted_def get_substitution_plain)
  next
    case False
    then show ?thesis
      using 2(2) [OF False 2(3), of "Suc pos"]
      by (subst replace_from.simps) (auto simp: match_at_quoted starts_quoted_def)
  qed
qed

text \<open>The reference that replaces the literal of a variable.\<close>

definition reference :: "EnvVar \<Rightarrow> string" where
  "reference envVar = ''process.env.'' @ ev_name envVar"

lemma replace_one_redact:
  assumes "CHR ''$'' \<notin> set (ev_name envVar)"
  shows "replace_one envVar code = Some (redact (ev_value envVar) (reference envVar) code)"
proof -
  have "CHR ''$'' \<notin> set (''process.env.'' @ ev_name envVar)"
    using assms by simp
  then show ?thesis
    unfolding replace_one_def parse_quoted_src option.case string_replace_def
    by (simp add: replace_from_quoted reference_def global_regexp_def)
qed

lemma replaceWithEnvVars_fold:
  "\<forall>e\<in>set envVars. CHR ''$'' \<notin> set (ev_name e) \<Longrightarrow>
     replaceWithEnvVars code envVars
       = Some (fold (\<lambda>e. redact (ev_value e) (reference e)) envVars code)"
  by (induction envVars arbitrary: code) (simp_all add: replace_one_redact)

text \<open>The value stands somewhere in the text between two equal quote characters.\<close>

definition has_quoted :: "string \<Rightarrow> string \<Rightarrow> bool" where
  "has_quoted v s \<longleftrightarrow> list_ex (\<lambda>q. sublist (q # v @ [q]) s) quote_chars"

lemma sublist_skip:
  "q \<notin> set pre \<Longrightarrow> sublist (q # w) (pre @ t) \<longleftrightarrow> sublist (q # w) t"
  by (induction pre) (auto simp: sublist_Cons_right)

lemma sublist_tail: "\<not> sublist ref (u0 # u) \<Longrightarrow> \<not> sublist ref u"
  by (auto simp: sublist_Cons_right)

lemma prefix_into_ref:
  assumes "ref \<noteq> []" "q \<notin> set ref" "\<not> sublist ref u"
  shows "\<not> prefix (u @ [q]) (ref @ t)"
proof
  assume "prefix (u @ [q]) (ref @ t)"
  then consider "prefix (u @ [q]) ref" | us where "u @ [q] = ref @ us"
    by (auto simp: prefix_append)
  then show False
  proof cases
    case 1
    then have "q \<in> set ref" using set_mono_prefix by fastforce
    with assms(2) show False by simp
  next
    case 2
    then have "prefix ref (u @ [q])" by (metis prefixI)
    then have "ref = u @ [q] \<or> prefix ref u" by (simp add: prefix_snoc)
    with assms show False by auto
  qed
qed

lemma prefix_redact:
  "ref \<noteq> [] \<Longrightarrow> set ref \<inter> set quote_chars = {} \<Longrightarrow> q \<in> set quote_chars \<Longrightarrow>
   \<not> sublist ref u \<Longrightarrow> prefix (u @ [q]) (redact v ref xs) \<Longrightarrow> prefix (u @ [q]) xs"
proof (induction v ref xs arbitrary: u rule: redact.induct)
  case (1 v ref)
  then show ?case by simp
next
  case (2 v ref x xs)
  from 2(3,4,5) have qref: "q \<notin> set ref" by auto
  show ?case
  proof (cases "x \<in> set quote_chars \<and> prefix (v @ [x]) xs")
    case True
    with 2(7) have "prefix (u @ [q]) (ref @ redact v ref (drop (Suc (length v)) xs))" by simp
    with prefix_into_ref [OF 2(3) qref 2(6)] show ?thesis by blast
  next
    case False
    with 2(7) have p: "prefix (u @ [q]) (x # redact v ref xs)" by simp
    show ?thesis
    proof (cases u)
      case Nil
      with p show ?thesis by simp
    next
      case (Cons u0 u')
      with p have "u0 = x" "prefix (u' @ [q]) (redact v ref xs)" by simp_all
      moreover from 2(6) Cons have "\<not> sublist ref u'" by (auto dest: sublist_tail)
      ultimately show ?thesis
        using 2(2) [OF False 2(3) 2(4) 2(5), of u'] Cons by simp
    qed
  qed
qed

lemma redact_clears:
  "ref \<noteq> [] \<Longrightarrow> set ref \<inter> set quote_chars = {} \<Longrightarrow> q \<in> set quote_chars \<Longrightarrow>
   \<not> sublist ref v \<Longrightarrow> \<not> sublist (q # v @ [q]) (redact v ref s)"
proof (induction v ref s rule: redact.induct)
  case (1 v ref)
  then show ?case by simp
next
  case (2 v ref x xs)
  from 2(3,4,5) have qref: "q \<notin> set ref" by auto
  show ?case
  proof (cases "x \<in> set quote_chars \<and> prefix (v @ [x]) xs")
    case True
    then show ?thesis
      using 2(1) [OF True 2(3) 2(4) 2(5) 2(6)] sublist_skip [OF qref] by simp
  next
    case False
    have "\<not> prefix (q # v @ [q]) (x # redact v ref xs)"
    proof
      assume "prefix (q # v @ [q]) (x # redact v ref xs)"
      then have "q = x" "prefix (v @ [q]) (redact v ref xs)" by auto
      with prefix_redact [OF 2(3) 2(4) 2(5) 2(6)] have "prefix (v @ [x]) xs" by blast
      with False 2(5) \<open>q = x\<close> show False by simp
    qed
    moreover have "redact v ref (x # xs) = x # redact v ref xs"
      using False by auto
    ultimately show ?thesis
      using 2(2) [OF False 2(3) 2(4) 2(5) 2(6)] by (simp add: sublist_Cons_right)
  qed
qed

lemma redact_keeps_clear:
  "ref \<noteq> [] \<Longrightarrow> set ref \<inter> set quote_chars = {} \<Longrightarrow> q \<in> set quote_chars \<Longrightarrow>
   \<not> sublist ref w \<Longrightarrow> \<not> sublist (q # w @ [q]) s \<Longrightarrow> \<not> sublist (q # w @ [q]) (redact v ref s)"
proof (induction v ref s rule: redact.induct)
  case (1 v ref)
  then show ?case by simp
next
  case (2 v ref x xs)
  from 2(3,4,5) have qref: "q \<notin> set ref" by auto
  show ?case
  proof (cases "x \<in> set quote_chars \<and> prefix (v @ [x]) xs")
    case True
    have "sublist (drop (Suc (length v)) xs) (x # xs)"
      by (metis sublist_Cons_right sublist_drop)
    with 2(7) have "\<not> sublist (q # w @ [q]) (drop (Suc (length v)) xs)"
      using sublist_order.order.trans by blast
    then show ?thesis
      using True 2(1) [OF True 2(3) 2(4) 2(5) 2(6)] sublist_skip [OF qref] by simp
  next
    case False
    have "\<not> prefix (q # w @ [q]) (x # redact v ref xs)"
    proof
      assume "prefix (q # w @ [q]) (x # redact v ref xs)"
      then have "q = x" "prefix (w @ [q]) (redact v ref xs)" by auto
      with prefix_redact [OF 2(3) 2(4) 2(5) 2(6)] have "prefix (w @ [q]) xs" by blast
      with \<open>q = x\<close> have "prefix (q # w @ [q]) (x # xs)" by simp
      then have "sublist (q # w @ [q]) (x # xs)" by (rule prefix_imp_sublist)
      with 2(7) show False by blast
    qed
    moreover from 2(7) have "\<not> sublist (q # w @ [q]) xs" by (simp add: sublist_Cons_right)
    moreover have "redact v ref (x # xs) = x # redact v ref xs"
      using False by auto
    ultimately show ?thesis
      using 2(2) [OF False 2(3) 2(4) 2(5) 2(6)] by (simp add: sublist_Cons_right)
  qed
qed


lemma reference_plain:
  "set (ev_name e) \<inter> set quote_chars = {} \<Longrightarrow>
     reference e \<noteq> [] \<and> set (reference e) \<inter> set quote_chars = {}"
  by (auto simp: reference_def quote_chars_def SQ_def DQ_def BQ_def)

text \<open>The passes for the variables of a list, in list order.\<close>

definition redact_all :: "EnvVar list \<Rightarrow> string \<Rightarrow> string" where
  "redact_all envVars code = fold (\<lambda>e. redact (ev_value e) (reference e)) envVars code"

lemma redact_all_snoc:
  "redact_all (es @ [e]) code = redact (ev_value e) (reference e) (redact_all es code)"
  by (simp add: redact_all_def)

lemma redact_all_clear_aux:
  assumes names: "\<forall>e\<in>E. set (ev_name e) \<inter> set quote_chars = {}"
    and vals: "\<forall>e\<in>E. \<forall>e'\<in>E. \<not> sublist (reference e') (ev_value e)"
  shows "set es \<subseteq> E \<Longrightarrow> \<forall>e\<in>set es. \<not> has_quoted (ev_value e) (redact_all es code)"
proof (induction es rule: rev_induct)
  case Nil
  show ?case by simp
next
  case (snoc x es)
  then have x: "x \<in> E" and es: "set es \<subseteq> E" by auto
  from names x have ref: "reference x \<noteq> []" "set (reference x) \<inter> set quote_chars = {}"
    using reference_plain by blast+
  show ?case
  proof
    fix e assume e: "e \<in> set (es @ [x])"
    show "\<not> has_quoted (ev_value e) (redact_all (es @ [x]) code)"
    proof (cases "e = x")
      case True
      from vals x have "\<not> sublist (reference x) (ev_value x)" by blast
      with ref show ?thesis
        unfolding redact_all_snoc True has_quoted_def
        by (auto simp: list_ex_iff dest: redact_clears [rotated -1])
    next
      case False
      with e have ein: "e \<in> set es" by simp
      with es have "e \<in> E" by blast
      with vals x have ns: "\<not> sublist (reference x) (ev_value e)" by blast
      from snoc.IH [OF es] ein have "\<not> has_quoted (ev_value e) (redact_all es code)" by blast
      with ref ns show ?thesis
        unfolding redact_all_snoc has_quoted_def
        by (auto simp: list_ex_iff dest: redact_keeps_clear [rotated -1])
    qed
  qed
qed

lemma redact_all_clear:
  assumes "\<forall>e\<in>set envVars. set (ev_name e) \<inter> set quote_chars = {}"
    and "\<forall>e\<in>set envVars. \<forall>e'\<in>set envVars. \<not> sublist (reference e') (ev_value e)"
  shows "\<forall>e\<in>set envVars. \<not> has_quoted (ev_value e) (redact_all envVars code)"
  using redact_all_clear_aux [OF assms, of envVars code] by simp

text \<open>
  Each pass keeps the text between the occurrences it replaces and puts one reference for
  each: the text is the gaps woven with quoted occurrences, the result the same gaps woven
  with as many references.
\<close>

fun weave :: "string list \<Rightarrow> string list \<Rightarrow> string" where
  "weave [] os = []"
| "weave (g # gs) [] = g"
| "weave (g # gs) (x # os) = g @ x @ weave gs os"

lemma redact_weave:
  "\<exists>gaps qs. length gaps = Suc (length qs) \<and> set qs \<subseteq> set quote_chars
     \<and> s = weave gaps (map (\<lambda>q. q # v @ [q]) qs)
     \<and> redact v ref s = weave gaps (map (\<lambda>q. ref) qs)"
proof (induction v ref s rule: redact.induct)
  case (1 v ref)
  show ?case by (rule exI [of _ "[[]]"], rule exI [of _ "[]"]) simp
next
  case (2 v ref x xs)
  show ?case
  proof (cases "x \<in> set quote_chars \<and> prefix (v @ [x]) xs")
    case True
    from 2(1) [OF True] obtain gaps qs where g: "length gaps = Suc (length qs)"
      "set qs \<subseteq> set quote_chars"
      "drop (Suc (length v)) xs = weave gaps (map (\<lambda>q. q # v @ [q]) qs)"
      "redact v ref (drop (Suc (length v)) xs) = weave gaps (map (\<lambda>q. ref) qs)"
      by blast
    from True obtain ys where xs: "xs = v @ [x] @ ys" by (auto simp: prefix_def)
    then have "drop (Suc (length v)) xs = ys" by simp
    with g xs True show ?thesis
      by (intro exI [of _ "[] # gaps"] exI [of _ "x # qs"]) auto
  next
    case False
    from 2(2) [OF False] obtain gaps qs where g: "length gaps = Suc (length qs)"
      "set qs \<subseteq> set quote_chars"
      "xs = weave gaps (map (\<lambda>q. q # v @ [q]) qs)"
      "redact v ref xs = weave gaps (map (\<lambda>q. ref) qs)"
      by blast
    from g(1) obtain g0 gs where gaps: "gaps = g0 # gs" by (cases gaps) auto
    have r: "redact v ref (x # xs) = x # redact v ref xs" using False by auto
    show ?thesis
      unfolding r using g gaps
      by (intro exI [of _ "(x # g0) # gs"] exI [of _ qs]) (cases qs; auto)
  qed
qed

section \<open>Properties of the detection\<close>

text \<open>The matches that the loop of \<^verbatim>\<open>detectEnvVars\<close> sees, in the order it sees them.\<close>

function all_matches :: "regexp \<Rightarrow> string \<Rightarrow> js_match list option" where
  "all_matches pattern playwrightCode =
     (case regexp_exec pattern playwrightCode of
        (None, pattern') \<Rightarrow> Some []
      | (Some match, pattern') \<Rightarrow>
          if pattern' = pattern then None
          else map_option ((#) match) (all_matches pattern' playwrightCode))"
  by pat_completeness auto
termination
proof (relation "measure (\<lambda>(pattern, playwrightCode).
    Suc (length playwrightCode) - rx_lastIndex pattern)", goal_cases)
  case 1
  show ?case by simp
next
  case (2 pattern playwrightCode x1 pattern' match)
  from 2(1,2) have "regexp_exec pattern playwrightCode = (Some match, pattern')" by simp
  from regexp_exec_bounds [OF this 2(3)] show ?case by auto
qed

declare all_matches.simps [simp del]

lemma detect_loop_matches:
  "detect_loop pattern type code roleName envVars =
     map_option (\<lambda>ms. envVars @ concat (map (detect_body type roleName) ms))
       (all_matches pattern code)"
proof (induction pattern code arbitrary: envVars rule: all_matches.induct)
  case (1 pattern code)
  show ?case
  proof (cases "regexp_exec pattern code")
    case (Pair mo pattern')
    show ?thesis
    proof (cases mo)
      case None
      with Pair show ?thesis
        by (subst detect_loop.simps, subst all_matches.simps) simp
    next
      case (Some m)
      show ?thesis
      proof (cases "pattern' = pattern")
        case True
        with Pair Some show ?thesis
          by (subst detect_loop.simps, subst all_matches.simps) simp
      next
        case False
        from 1 [OF Pair [symmetric] Some False, of "envVars @ detect_body type roleName m"]
        show ?thesis
          using Pair Some False
          by (subst detect_loop.simps, subst all_matches.simps)
            (simp add: option.map_comp comp_def)
      qed
    qed
  qed
qed

lemma all_matches_sorted:
  "all_matches pattern code = Some ms \<Longrightarrow>
     sorted_wrt (\<lambda>a b. m_end a \<le> m_index b) ms
     \<and> (\<forall>m\<in>set ms. rx_lastIndex pattern \<le> m_index m \<and> m_index m \<le> m_end m)"
proof (induction pattern code arbitrary: ms rule: all_matches.induct)
  case (1 pattern code)
  show ?case
  proof (cases "regexp_exec pattern code")
    case (Pair mo pattern')
    show ?thesis
    proof (cases mo)
      case None
      with Pair 1(2) show ?thesis by (subst (asm) all_matches.simps) simp
    next
      case (Some m)
      with Pair 1(2) have ne: "pattern' \<noteq> pattern"
        by (subst (asm) all_matches.simps) (auto split: if_splits)
      with Pair Some 1(2) obtain ms' where ms: "ms = m # ms'"
        and ms': "all_matches pattern' code = Some ms'"
        by (subst (asm) all_matches.simps) auto
      from Pair Some have ex: "regexp_exec pattern code = (Some m, pattern')" by simp
      note b = regexp_exec_bounds [OF ex ne]
      from 1(1) [OF Pair [symmetric] Some ne ms'] b
      show ?thesis unfolding ms by auto
    qed
  qed
qed


text \<open>A pattern that starts with a literal character has no empty match.\<close>

lemma matcher_char_first:
  assumes "st' \<in> set (matcher ic (RSeq (RChar c) r) st)"
  shows "st_pos st < st_pos st'"
proof -
  from assms obtain s1 where s1: "s1 \<in> set (match_char (\<lambda>x. canonicalize ic x = canonicalize ic c) st)"
    and s2: "st' \<in> set (matcher ic r s1)"
    by auto
  from s1 have "st_pos s1 = Suc (st_pos st)"
    by (cases "st_rest st") (auto simp: match_char_def split: if_splits)
  with matcher_follows [OF s2] show ?thesis by (simp add: follows_def)
qed

lemma fill_pattern_first: "\<exists>r. fill_pattern keyword = RSeq (RChar CHR ''.'') r"
  by (simp add: fill_pattern_def lits_def seqs_Cons)

lemma match_at_fill:
  assumes "match_at ic (fill_pattern keyword) pos rest = Some m"
  shows "m_index m < m_end m"
proof -
  from fill_pattern_first obtain r where r: "fill_pattern keyword = RSeq (RChar CHR ''.'') r" ..
  from assms obtain st' sts where
    m: "matcher ic (fill_pattern keyword) \<lparr>st_pos = pos, st_rest = rest, st_caps = []\<rparr> = st' # sts"
    and mm: "m_index m = pos" "m_end m = st_pos st'"
    by (auto simp: match_at_def split: list.splits)
  from m have "st' \<in> set (matcher ic (RSeq (RChar CHR ''.'') r) \<lparr>st_pos = pos, st_rest = rest, st_caps = []\<rparr>)"
    unfolding r by simp
  from matcher_char_first [OF this] mm show ?thesis by simp
qed

lemma scan_fill:
  "scan ic (fill_pattern keyword) pos rest = Some m \<Longrightarrow> m_index m < m_end m"
proof (induction rest arbitrary: pos)
  case Nil
  then show ?case using match_at_fill [of ic keyword pos "[]" m] by simp
next
  case (Cons x xs)
  then show ?case
    using match_at_fill [of ic keyword pos "x # xs" m]
    by (cases "match_at ic (fill_pattern keyword) pos (x # xs)") auto
qed

lemma all_matches_fill_total:
  "rx_regex pattern = fill_pattern keyword \<Longrightarrow> rx_global pattern \<Longrightarrow>
     \<exists>ms. all_matches pattern code = Some ms"
proof (induction pattern code rule: all_matches.induct)
  case (1 pattern code)
  show ?case
  proof (cases "regexp_exec pattern code")
    case (Pair mo pattern')
    show ?thesis
    proof (cases mo)
      case None
      with Pair show ?thesis by (subst all_matches.simps) simp
    next
      case (Some m)
      from Pair Some 1(3) have le: "rx_lastIndex pattern \<le> length code"
        and sc: "scan (rx_ignoreCase pattern) (rx_regex pattern) (rx_lastIndex pattern)
                   (drop (rx_lastIndex pattern) code) = Some m"
        and p': "pattern' = pattern\<lparr>rx_lastIndex := m_end m\<rparr>"
        by (auto simp: regexp_exec_def Let_def split: if_splits option.splits)
      from sc have "m_index m < m_end m" unfolding 1(2) by (rule scan_fill)
      moreover from scan_bounds [OF sc] have "rx_lastIndex pattern \<le> m_index m" by simp
      ultimately have "rx_lastIndex pattern' \<noteq> rx_lastIndex pattern" using p' by simp
      then have ne: "pattern' \<noteq> pattern" by auto
      from p' 1(2,3) have "rx_regex pattern' = fill_pattern keyword" "rx_global pattern'" by simp_all
      from 1(1) [OF Pair [symmetric] Some ne this] obtain ms
        where "all_matches pattern' code = Some ms" ..
      with Pair Some ne show ?thesis by (subst all_matches.simps) simp
    qed
  qed
qed

lemma emailPattern_total: "\<exists>ms. all_matches (global_regexp emailPattern) code = Some ms"
  by (rule all_matches_fill_total) (simp_all add: global_regexp_def emailPattern_def)

lemma passwordPattern_total: "\<exists>ms. all_matches (global_regexp passwordPattern) code = Some ms"
  by (rule all_matches_fill_total) (simp_all add: global_regexp_def passwordPattern_def)

lemma detectEnvVars_matches:
  assumes "all_matches (global_regexp emailPattern) code = Some es"
    and "all_matches (global_regexp passwordPattern) code = Some ps"
  shows "detectEnvVars code roleName =
     Some (deduplicateEnvVars (concat (map (detect_body Email roleName) es)
                               @ concat (map (detect_body Password roleName) ps)))"
  using assms by (simp add: detectEnvVars_def fillPatterns_def detect_loop_matches)

subsection \<open>Transcripts used at concrete inputs\<close>

definition login_transcript :: string where
  \<open>login_transcript =
     ''await page.getByRole(\'textbox\', { name: \'Email\' }).fill(\'alice@example.com\');'' @ [CHR 0x0A]
     @ ''await page.getByRole(\'textbox\', { name: \'Password\' }).fill(\'s3cr3t!\');'' @ [CHR 0x0A]\<close>

definition password_first_transcript :: string where
  \<open>password_first_transcript =
     ''await page.getByRole(\'textbox\', { name: \'Password\' }).fill(\'pw9!\');'' @ [CHR 0x0A]
     @ ''await page.getByRole(\'textbox\', { name: \'Email\' }).fill(\'bob@corp.io\');'' @ [CHR 0x0A]\<close>

definition admin_field_transcript :: string where
  \<open>admin_field_transcript =
     ''await page.getByRole(\'textbox\', { name: \'Admin Email\' }).fill(\'bob@corp.io\');'' @ [CHR 0x0A]\<close>

subsection \<open>Order of the output\<close>

lemma subseq_append_split:
  "subseq zs (xs @ ys) \<Longrightarrow> \<exists>zs1 zs2. zs = zs1 @ zs2 \<and> subseq zs1 xs \<and> subseq zs2 ys"
  by (erule subseq_appendE) blast

lemma detect_body_type: "ev \<in> set (detect_body type roleName m) \<Longrightarrow> ev_type ev = type"
  by (auto simp: detect_body_def Let_def split: option.splits if_splits)

text \<open>
  Claim C2, as the code has it. \<^verbatim>\<open>detectEnvVars\<close> returns for every transcript and role
  name. It runs the email/username pattern over the whole transcript and then the password
  pattern: the output is the de-duplication of the credentials of the email/username
  matches, in increasing match position, followed by the credentials of the password
  matches, in increasing match position. So the output is a run of email credentials
  followed by a run of password credentials, each in transcript order, whatever the order
  of the two kinds of field in the transcript.
\<close>

theorem detectEnvVars_pattern_order:
  "\<exists>es ps xs ys.
     all_matches (global_regexp emailPattern) code = Some es
     \<and> all_matches (global_regexp passwordPattern) code = Some ps
     \<and> sorted_wrt (\<lambda>a b. m_end a \<le> m_index b) es
     \<and> sorted_wrt (\<lambda>a b. m_end a \<le> m_index b) ps
     \<and> detectEnvVars code roleName =
         Some (deduplicateEnvVars (concat (map (detect_body Email roleName) es)
                                   @ concat (map (detect_body Password roleName) ps)))
     \<and> detectEnvVars code roleName = Some (xs @ ys)
     \<and> subseq xs (concat (map (detect_body Email roleName) es))
     \<and> subseq ys (concat (map (detect_body Password roleName) ps))
     \<and> list_all (\<lambda>ev. ev_type ev = Email) xs
     \<and> list_all (\<lambda>ev. ev_type ev = Password) ys"
proof -
  obtain es where es: "all_matches (global_regexp emailPattern) code = Some es"
    using emailPattern_total by blast
  obtain ps where ps: "all_matches (global_regexp passwordPattern) code = Some ps"
    using passwordPattern_total by blast
  let ?E = "concat (map (detect_body Email roleName) es)"
  let ?P = "concat (map (detect_body Password roleName) ps)"
  have d: "detectEnvVars code roleName = Some (deduplicateEnvVars (?E @ ?P))"
    using es ps by (rule detectEnvVars_matches)
  from dedup_subseq [of "?E @ ?P"] obtain xs ys where xy: "deduplicateEnvVars (?E @ ?P) = xs @ ys"
    "subseq xs ?E" "subseq ys ?P"
    using subseq_append_split by blast
  have "set xs \<subseteq> set ?E" "set ys \<subseteq> set ?P"
    using xy(2,3) by (auto dest: list_emb_set)
  then have t: "list_all (\<lambda>ev. ev_type ev = Email) xs" "list_all (\<lambda>ev. ev_type ev = Password) ys"
    by (auto simp: list_all_iff dest!: subsetD dest: detect_body_type)
  from es ps all_matches_sorted [OF es] all_matches_sorted [OF ps] d xy t
  show ?thesis by auto
qed


text \<open>
  Claim C2 as stated fails: in this transcript the password field is filled at position 10
  and the email field at position 78, and the output lists the email credential first.
\<close>

theorem detectEnvVars_pattern_order_counterexample:
  "detectEnvVars password_first_transcript (Some ''user'') =
     Some [\<lparr>ev_name = ''QA_USER_EMAIL'', ev_value = ''bob@corp.io'', ev_type = Email\<rparr>,
           \<lparr>ev_name = ''QA_USER_PASSWORD'', ev_value = ''pw9!'', ev_type = Password\<rparr>]
   \<and> map_option (map m_index)
         (all_matches (global_regexp passwordPattern) password_first_transcript)
       = Some [10]
   \<and> map_option (map m_index)
         (all_matches (global_regexp emailPattern) password_first_transcript)
       = Some [78]"
proof (intro conjI)
  show "detectEnvVars password_first_transcript (Some ''user'') =
     Some [\<lparr>ev_name = ''QA_USER_EMAIL'', ev_value = ''bob@corp.io'', ev_type = Email\<rparr>,
           \<lparr>ev_name = ''QA_USER_PASSWORD'', ev_value = ''pw9!'', ev_type = Password\<rparr>]"
    by code_simp
  show "map_option (map m_index)
         (all_matches (global_regexp passwordPattern) password_first_transcript)
       = Some [10]"
    by code_simp
  show "map_option (map m_index)
         (all_matches (global_regexp emailPattern) password_first_transcript)
       = Some [78]"
    by code_simp
qed

subsection \<open>Names with the admin infix\<close>

lemma detect_body_elem:
  assumes "ev \<in> set (detect_body type roleName m)"
  shows "ev_type ev = type \<and> match_group m 2 = Some (ev_value ev)
    \<and> \<not> isLikelySelector (ev_value ev) \<and> \<not> isCommonTestData (ev_value ev)
    \<and> ev_name ev = generateEnvVarName (ev_value ev) type (match_group m 1) roleName"
  using assms by (auto simp: detect_body_def Let_def split: option.splits if_splits)

lemma not_common_not_admin: "\<not> isCommonTestData v \<Longrightarrow> \<not> contains_admin_ci v"
  by (simp add: isCommonTestData_def commonTestData_def includes_admin_ci)


lemma name_email_admin: "''QA_'' @ rp @ ''_EMAIL'' = ''QA_ADMIN_EMAIL'' \<longleftrightarrow> rp = ''ADMIN''"
proof -
  have "''QA_'' @ rp @ ''_EMAIL'' = ''QA_ADMIN_EMAIL'' \<longleftrightarrow> rp @ ''_EMAIL'' = ''ADMIN'' @ ''_EMAIL''"
    by simp
  then show ?thesis by (simp only: append_same_eq)
qed

lemma name_password_admin:
  "''QA_'' @ rp @ ''_PASSWORD'' = ''QA_ADMIN_PASSWORD'' \<longleftrightarrow> rp = ''ADMIN''"
proof -
  have "''QA_'' @ rp @ ''_PASSWORD'' = ''QA_ADMIN_PASSWORD''
      \<longleftrightarrow> rp @ ''_PASSWORD'' = ''ADMIN'' @ ''_PASSWORD''"
    by simp
  then show ?thesis by (simp only: append_same_eq)
qed

lemma name_email_not_password: "''QA_'' @ rp @ ''_EMAIL'' \<noteq> ''QA_ADMIN_PASSWORD''"
proof
  assume "''QA_'' @ rp @ ''_EMAIL'' = ''QA_ADMIN_PASSWORD''"
  then have "last (''QA_'' @ rp @ ''_EMAIL'') = last ''QA_ADMIN_PASSWORD''" by (rule arg_cong)
  then show False by simp
qed

lemma name_password_not_email: "''QA_'' @ rp @ ''_PASSWORD'' \<noteq> ''QA_ADMIN_EMAIL''"
proof
  assume "''QA_'' @ rp @ ''_PASSWORD'' = ''QA_ADMIN_EMAIL''"
  then have "last (''QA_'' @ rp @ ''_PASSWORD'') = last ''QA_ADMIN_EMAIL''" by (rule arg_cong)
  then show False by simp
qed

lemma admin_name_source:
  assumes "\<not> contains_admin_ci v"
    and "generateEnvVarName v type fieldContext roleName \<in> {''QA_ADMIN_EMAIL'', ''QA_ADMIN_PASSWORD''}"
  shows "field_contains_admin_ci fieldContext \<or> rolePrefix roleName = ''ADMIN''"
proof (cases "field_contains_admin_ci fieldContext")
  case True
  then show ?thesis ..
next
  case False
  with assms(1) have na: "\<not> admin_context v fieldContext" by (simp add: admin_context_ci)
  show ?thesis
  proof (cases type)
    case Email
    with assms(2) na have "''QA_'' @ rolePrefix roleName @ ''_EMAIL'' = ''QA_ADMIN_EMAIL''
        \<or> ''QA_'' @ rolePrefix roleName @ ''_EMAIL'' = ''QA_ADMIN_PASSWORD''"
      by simp
    then show ?thesis using name_email_admin name_email_not_password by blast
  next
    case Password
    with assms(2) na have "''QA_'' @ rolePrefix roleName @ ''_PASSWORD'' = ''QA_ADMIN_EMAIL''
        \<or> ''QA_'' @ rolePrefix roleName @ ''_PASSWORD'' = ''QA_ADMIN_PASSWORD''"
      by simp
    then show ?thesis using name_password_admin name_password_not_email by blast
  qed
qed

text \<open>
  Claim C10, as the code has it. Every environment variable that \<^verbatim>\<open>detectEnvVars\<close> emits
  comes from a match of the pattern of its kind, its value does not contain \<^verbatim>\<open>admin\<close>
  (case-insensitively), so the value-based override of the namer is never taken, and its
  name is \<^verbatim>\<open>QA_ADMIN_EMAIL\<close> or \<^verbatim>\<open>QA_ADMIN_PASSWORD\<close> only when the matched field context
  contains \<^verbatim>\<open>admin\<close> (case-insensitively) or the role prefix (the upper-cased role name) is
  \<^verbatim>\<open>ADMIN\<close>.
\<close>

theorem detectEnvVars_admin_names:
  "\<exists>es ps out.
     all_matches (global_regexp emailPattern) code = Some es
     \<and> all_matches (global_regexp passwordPattern) code = Some ps
     \<and> detectEnvVars code roleName = Some out
     \<and> (\<forall>ev\<in>set out.
           \<not> contains_admin_ci (ev_value ev)
           \<and> (\<exists>m\<in>set (case ev_type ev of Email \<Rightarrow> es | Password \<Rightarrow> ps).
                 match_group m 2 = Some (ev_value ev)
                 \<and> ev_name ev = generateEnvVarName (ev_value ev) (ev_type ev) (match_group m 1) roleName
                 \<and> (ev_name ev \<in> {''QA_ADMIN_EMAIL'', ''QA_ADMIN_PASSWORD''} \<longrightarrow>
                      field_contains_admin_ci (match_group m 1) \<or> rolePrefix roleName = ''ADMIN'')))"
proof -
  obtain es where es: "all_matches (global_regexp emailPattern) code = Some es"
    using emailPattern_total by blast
  obtain ps where ps: "all_matches (global_regexp passwordPattern) code = Some ps"
    using passwordPattern_total by blast
  let ?E = "concat (map (detect_body Email roleName) es)"
  let ?P = "concat (map (detect_body Password roleName) ps)"
  let ?out = "deduplicateEnvVars (?E @ ?P)"
  have d: "detectEnvVars code roleName = Some ?out"
    using es ps by (rule detectEnvVars_matches)
  have "\<not> contains_admin_ci (ev_value ev)
      \<and> (\<exists>m\<in>set (case ev_type ev of Email \<Rightarrow> es | Password \<Rightarrow> ps).
            match_group m 2 = Some (ev_value ev)
            \<and> ev_name ev = generateEnvVarName (ev_value ev) (ev_type ev) (match_group m 1) roleName
            \<and> (ev_name ev \<in> {''QA_ADMIN_EMAIL'', ''QA_ADMIN_PASSWORD''} \<longrightarrow>
                 field_contains_admin_ci (match_group m 1) \<or> rolePrefix roleName = ''ADMIN''))"
    if "ev \<in> set ?out" for ev
  proof -
    from that dedup_subseq [of "?E @ ?P"] have "ev \<in> set (?E @ ?P)"
      by (auto dest: list_emb_set)
    then obtain type m where m: "m \<in> set (case type of Email \<Rightarrow> es | Password \<Rightarrow> ps)"
      and ev: "ev \<in> set (detect_body type roleName m)"
      by (auto intro: that [of _ Email] that [of _ Password])
    note b = detect_body_elem [OF ev]
    from b have na: "\<not> contains_admin_ci (ev_value ev)" by (simp add: not_common_not_admin)
    from b m have "m \<in> set (case ev_type ev of Email \<Rightarrow> es | Password \<Rightarrow> ps)" by simp
    with b na admin_name_source [OF na, of "ev_type ev" "match_group m 1" roleName]
    show ?thesis by auto
  qed
  with es ps d show ?thesis by blast
qed


theorem detectEnvVars_admin_names_witness:
  "detectEnvVars admin_field_transcript (Some ''user'')
     = Some [\<lparr>ev_name = ''QA_ADMIN_EMAIL'', ev_value = ''bob@corp.io'', ev_type = Email\<rparr>]
   \<and> rolePrefix (Some ''user'') \<noteq> ''ADMIN''
   \<and> \<not> contains_admin_ci ''bob@corp.io''
   \<and> (\<exists>m. match_group m 2 = Some ''bob@corp.io'' \<and> field_contains_admin_ci (match_group m 1))"
proof -
  have d: "detectEnvVars admin_field_transcript (Some ''user'')
     = Some [\<lparr>ev_name = ''QA_ADMIN_EMAIL'', ev_value = ''bob@corp.io'', ev_type = Email\<rparr>]"
    by code_simp
  have r: "rolePrefix (Some ''user'') \<noteq> ''ADMIN''"
    by code_simp
  from detectEnvVars_admin_names [of admin_field_transcript "Some ''user''"] d
  obtain es ps where
    "\<forall>ev\<in>set [\<lparr>ev_name = ''QA_ADMIN_EMAIL'', ev_value = ''bob@corp.io'', ev_type = Email\<rparr>].
           \<not> contains_admin_ci (ev_value ev)
           \<and> (\<exists>m\<in>set (case ev_type ev of Email \<Rightarrow> es | Password \<Rightarrow> ps).
                 match_group m 2 = Some (ev_value ev)
                 \<and> ev_name ev = generateEnvVarName (ev_value ev) (ev_type ev) (match_group m 1) (Some ''user'')
                 \<and> (ev_name ev \<in> {''QA_ADMIN_EMAIL'', ''QA_ADMIN_PASSWORD''} \<longrightarrow>
                      field_contains_admin_ci (match_group m 1) \<or> rolePrefix (Some ''user'') = ''ADMIN''))"
    by auto
  with r have "\<not> contains_admin_ci ''bob@corp.io''
      \<and> (\<exists>m. match_group m 2 = Some ''bob@corp.io'' \<and> field_contains_admin_ci (match_group m 1))"
    by auto
  with d r show ?thesis by blast
qed

text \<open>
  Claim C10 as stated fails for the role \<^verbatim>\<open>admin\<close>: the field contexts \<^verbatim>\<open>Email\<close> and
  \<^verbatim>\<open>Password\<close> do not contain \<^verbatim>\<open>admin\<close>, and the names are the admin names.
\<close>

theorem detectEnvVars_admin_names_counterexample:
  "detectEnvVars password_first_transcript (Some ''admin'') =
     Some [\<lparr>ev_name = ''QA_ADMIN_EMAIL'', ev_value = ''bob@corp.io'', ev_type = Email\<rparr>,
           \<lparr>ev_name = ''QA_ADMIN_PASSWORD'', ev_value = ''pw9!'', ev_type = Password\<rparr>]
   \<and> map_option (map m_groups)
         (all_matches (global_regexp emailPattern) password_first_transcript)
       = Some [[Some ''Email'', Some ''bob@corp.io'']]
   \<and> map_option (map m_groups)
         (all_matches (global_regexp passwordPattern) password_first_transcript)
       = Some [[Some ''Password'', Some ''pw9!'']]
   \<and> \<not> contains_admin_ci ''Email'' \<and> \<not> contains_admin_ci ''Password''"
proof (intro conjI)
  show "detectEnvVars password_first_transcript (Some ''admin'') =
     Some [\<lparr>ev_name = ''QA_ADMIN_EMAIL'', ev_value = ''bob@corp.io'', ev_type = Email\<rparr>,
           \<lparr>ev_name = ''QA_ADMIN_PASSWORD'', ev_value = ''pw9!'', ev_type = Password\<rparr>]"
    by code_simp
  show "map_option (map m_groups)
         (all_matches (global_regexp emailPattern) password_first_transcript)
       = Some [[Some ''Email'', Some ''bob@corp.io'']]"
    by code_simp
  show "map_option (map m_groups)
         (all_matches (global_regexp passwordPattern) password_first_transcript)
       = Some [[Some ''Password'', Some ''pw9!'']]"
    by code_simp
  have "\<not> js_includes (toLowerCase ''Email'') ''admin''" by code_simp
  then show "\<not> contains_admin_ci ''Email''" using includes_admin_ci by blast
  have "\<not> js_includes (toLowerCase ''Password'') ''admin''" by code_simp
  then show "\<not> contains_admin_ci ''Password''" using includes_admin_ci by blast
qed

subsection \<open>The rewriting, claim C4\<close>

text \<open>
  The hypotheses of claim C4 on a value: it contains no quote character, and each of its
  occurrences in the text stands between two equal quote characters.
\<close>

definition quote_free :: "string \<Rightarrow> bool" where
  "quote_free s \<longleftrightarrow> list_all (\<lambda>c. c \<notin> set quote_chars) s"

fun only_quoted_from :: "string \<Rightarrow> char option \<Rightarrow> string \<Rightarrow> bool" where
  "only_quoted_from v prev [] =
     (prefix v [] \<longrightarrow> False)"
| "only_quoted_from v prev (x # xs) =
     ((prefix v (x # xs) \<longrightarrow>
         (case prev of None \<Rightarrow> False
          | Some q \<Rightarrow> q \<in> set quote_chars \<and> prefix (v @ [q]) (x # xs)))
      \<and> only_quoted_from v (Some x) xs)"

definition only_quoted :: "string \<Rightarrow> string \<Rightarrow> bool" where
  "only_quoted v s = only_quoted_from v None s"

text \<open>
  Claim C4, as the code has it. For every text and every list of environment variables
  whose names contain no dollar sign: the pattern built for each value compiles to the
  opening quote, the characters of the value taken literally (no metacharacter acts as a
  wildcard) and a back-reference to the opening quote; \<^verbatim>\<open>replaceWithEnvVars\<close> returns the
  text in which, variable after variable in list order, every occurrence (leftmost first,
  not overlapping) of the value between two equal quote characters is replaced by one
  reference \<^verbatim>\<open>process.env.NAME\<close> (\<open>redact\<close>); a pass for one variable keeps the text
  between the occurrences it replaces and puts one reference for each. When moreover no name contains a quote character and no value contains a
  reference of the list, no value of the list stands between two equal quote characters in
  the result.
\<close>

theorem replaceWithEnvVars_redacts:
  assumes "list_all (\<lambda>e. CHR ''$'' \<notin> set (ev_name e)) envVars"
  shows \<open>list_all (\<lambda>e. parse_regex (''([\'"`])'' @ escapeRegex (ev_value e) @ bs ''%1'')
                       = Some (quoted_pattern (ev_value e))) envVars
     \<and> replaceWithEnvVars code envVars = Some (redact_all envVars code)
     \<and> list_all (\<lambda>e. \<exists>gaps qs. length gaps = Suc (length qs) \<and> set qs \<subseteq> set quote_chars
                       \<and> code = weave gaps (map (\<lambda>q. q # ev_value e @ [q]) qs)
                       \<and> replaceWithEnvVars code [e] = Some (weave gaps (map (\<lambda>q. reference e) qs)))
           envVars
     \<and> (list_all (\<lambda>e. quote_free (ev_name e)
                       \<and> list_all (\<lambda>e'. \<not> sublist (reference e') (ev_value e)) envVars) envVars
          \<longrightarrow> list_all (\<lambda>e. \<not> has_quoted (ev_value e) (redact_all envVars code)) envVars)\<close>
proof (intro conjI impI)
  show \<open>list_all (\<lambda>e. parse_regex (''([\'"`])'' @ escapeRegex (ev_value e) @ bs ''%1'')
                       = Some (quoted_pattern (ev_value e))) envVars\<close>
    unfolding parse_quoted_src by (simp add: list_all_iff)
  show "replaceWithEnvVars code envVars = Some (redact_all envVars code)"
    unfolding redact_all_def using assms by (intro replaceWithEnvVars_fold) (simp add: list_all_iff)
  have "\<exists>gaps qs. length gaps = Suc (length qs) \<and> set qs \<subseteq> set quote_chars
          \<and> code = weave gaps (map (\<lambda>q. q # ev_value e @ [q]) qs)
          \<and> replaceWithEnvVars code [e] = Some (weave gaps (map (\<lambda>q. reference e) qs))"
    if "e \<in> set envVars" for e
  proof -
    from that assms have "CHR ''$'' \<notin> set (ev_name e)" by (simp add: list_all_iff)
    then have "replaceWithEnvVars code [e] = Some (redact (ev_value e) (reference e) code)"
      by (simp add: replace_one_redact)
    with redact_weave [of code "ev_value e" "reference e"] show ?thesis by auto
  qed
  then show "list_all (\<lambda>e. \<exists>gaps qs. length gaps = Suc (length qs) \<and> set qs \<subseteq> set quote_chars
                       \<and> code = weave gaps (map (\<lambda>q. q # ev_value e @ [q]) qs)
                       \<and> replaceWithEnvVars code [e] = Some (weave gaps (map (\<lambda>q. reference e) qs)))
           envVars"
    by (simp add: list_all_iff)
  assume "list_all (\<lambda>e. quote_free (ev_name e)
                       \<and> list_all (\<lambda>e'. \<not> sublist (reference e') (ev_value e)) envVars) envVars"
  then have "\<forall>e\<in>set envVars. set (ev_name e) \<inter> set quote_chars = {}"
    and "\<forall>e\<in>set envVars. \<forall>e'\<in>set envVars. \<not> sublist (reference e') (ev_value e)"
    by (auto simp: list_all_iff quote_free_def)
  from redact_all_clear [OF this]
  show "list_all (\<lambda>e. \<not> has_quoted (ev_value e) (redact_all envVars code)) envVars"
    by (simp add: list_all_iff)
qed


definition login_vars :: "EnvVar list" where
  "login_vars =
     [\<lparr>ev_name = ''QA_USER_EMAIL'', ev_value = ''alice@example.com'', ev_type = Email\<rparr>,
      \<lparr>ev_name = ''QA_USER_PASSWORD'', ev_value = ''s3cr3t!'', ev_type = Password\<rparr>]"

definition login_rewritten :: string where
  \<open>login_rewritten =
     ''await page.getByRole(\'textbox\', { name: \'Email\' }).fill(process.env.QA_USER_EMAIL);'' @ [CHR 0x0A]
     @ ''await page.getByRole(\'textbox\', { name: \'Password\' }).fill(process.env.QA_USER_PASSWORD);'' @ [CHR 0x0A]\<close>

lemma login_rewrite: "replaceWithEnvVars login_transcript login_vars = Some login_rewritten"
  by code_simp

theorem replaceWithEnvVars_redacts_witness:
  "list_all (\<lambda>e. CHR ''$'' \<notin> set (ev_name e)) login_vars
   \<and> list_all (\<lambda>e. quote_free (ev_name e)
                     \<and> list_all (\<lambda>e'. \<not> sublist (reference e') (ev_value e)) login_vars) login_vars
   \<and> replaceWithEnvVars login_transcript login_vars = Some login_rewritten
   \<and> \<not> has_quoted ''alice@example.com'' login_rewritten
   \<and> \<not> has_quoted ''s3cr3t!'' login_rewritten"
proof -
  have h1: "list_all (\<lambda>e. CHR ''$'' \<notin> set (ev_name e)) login_vars"
    by code_simp
  have h2: "list_all (\<lambda>e. quote_free (ev_name e)
                     \<and> list_all (\<lambda>e'. \<not> sublist (reference e') (ev_value e)) login_vars) login_vars"
    by code_simp
  note t = replaceWithEnvVars_redacts [OF h1, of login_transcript]
  from t have r: "replaceWithEnvVars login_transcript login_vars
      = Some (redact_all login_vars login_transcript)"
    by blast
  from t h2
  have c: "list_all (\<lambda>e. \<not> has_quoted (ev_value e) (redact_all login_vars login_transcript)) login_vars"
    by blast
  from r login_rewrite have eq: "redact_all login_vars login_transcript = login_rewritten"
    by simp
  from c have "list_all (\<lambda>e. \<not> has_quoted (ev_value e) login_rewritten) login_vars"
    unfolding eq .
  then have "\<not> has_quoted ''alice@example.com'' login_rewritten"
    and "\<not> has_quoted ''s3cr3t!'' login_rewritten"
    by (simp_all add: login_vars_def)
  with h1 h2 login_rewrite show ?thesis by blast
qed

definition nested_text :: string where
  \<open>nested_text = ''x = "\'process.env.A\'";''\<close>

definition nested_vars :: "EnvVar list" where
  "nested_vars = [\<lparr>ev_name = ''A'', ev_value = ''process.env.A'', ev_type = Password\<rparr>]"

text \<open>
  Claim C4 as stated fails: the value below contains no quote character, occurs in the
  text once, between single quotes, and the list is de-duplicated; after the rewriting the
  value stands between double quotes.
\<close>

theorem replaceWithEnvVars_redacts_counterexample:
  \<open>deduplicateEnvVars nested_vars = nested_vars
   \<and> quote_free ''process.env.A''
   \<and> only_quoted ''process.env.A'' nested_text
   \<and> replaceWithEnvVars nested_text nested_vars = Some ''x = "process.env.A";''
   \<and> has_quoted ''process.env.A'' ''x = "process.env.A";''\<close>
proof (intro conjI)
  show "deduplicateEnvVars nested_vars = nested_vars"
    by (simp add: deduplicateEnvVars_def nested_vars_def)
  show "quote_free ''process.env.A''"
    by code_simp
  show "only_quoted ''process.env.A'' nested_text"
    by code_simp
  show \<open>replaceWithEnvVars nested_text nested_vars = Some ''x = "process.env.A";''\<close>
    by code_simp
  show \<open>has_quoted ''process.env.A'' ''x = "process.env.A";''\<close>
    by code_simp
qed

text \<open>
  A dollar sign in a name is read by \<^verbatim>\<open>String.prototype.replace\<close> as a replacement
  pattern: for the role name \<^verbatim>\<open>$&\<close> the derived name holds \<^verbatim>\<open>$&\<close>, which inserts the
  matched text, quotes included.
\<close>

lemma replaceWithEnvVars_dollar_name:
  \<open>replaceWithEnvVars ''fill(\'pw9!\')''
      [\<lparr>ev_name = ''QA_$&_PASSWORD'', ev_value = ''pw9!'', ev_type = Password\<rparr>]
     = Some ''fill(process.env.QA_\'pw9!\'_PASSWORD)''\<close>
  by code_simp


subsection \<open>The login scenario, claim C1\<close>

definition login_password_var :: EnvVar where
  "login_password_var = \<lparr>ev_name = ''QA_USER_PASSWORD'', ev_value = ''s3cr3t!'', ev_type = Password\<rparr>"

definition login_rewritten_password :: string where
  \<open>login_rewritten_password =
     ''await page.getByRole(\'textbox\', { name: \'Email\' }).fill(\'alice@example.com\');'' @ [CHR 0x0A]
     @ ''await page.getByRole(\'textbox\', { name: \'Password\' }).fill(process.env.QA_USER_PASSWORD);'' @ [CHR 0x0A]\<close>

text \<open>
  Claim C1, as the code has it. In the login transcript with role \<^verbatim>\<open>user\<close> both patterns
  match once (contexts \<^verbatim>\<open>Email\<close> and \<^verbatim>\<open>Password\<close>, values \<^verbatim>\<open>alice@example.com\<close> and
  \<^verbatim>\<open>s3cr3t!\<close>) and the names derived for the two matches are \<^verbatim>\<open>QA_USER_EMAIL\<close> and
  \<^verbatim>\<open>QA_USER_PASSWORD\<close>; the email value contains the placeholder token \<^verbatim>\<open>example\<close> and
  is discarded, so \<^verbatim>\<open>detectEnvVars\<close> returns the password credential alone.
  \<^verbatim>\<open>replaceWithEnvVars\<close> with the two variables replaces both quoted literals with
  references; with the list that \<^verbatim>\<open>detectEnvVars\<close> returns it replaces the password literal.
\<close>

theorem login_scenario:
  "map_option (map m_groups) (all_matches (global_regexp emailPattern) login_transcript)
     = Some [[Some ''Email'', Some ''alice@example.com'']]
   \<and> map_option (map m_groups) (all_matches (global_regexp passwordPattern) login_transcript)
     = Some [[Some ''Password'', Some ''s3cr3t!'']]
   \<and> generateEnvVarName ''alice@example.com'' Email (Some ''Email'') (Some ''user'') = ''QA_USER_EMAIL''
   \<and> generateEnvVarName ''s3cr3t!'' Password (Some ''Password'') (Some ''user'') = ''QA_USER_PASSWORD''
   \<and> isCommonTestData ''alice@example.com''
   \<and> detectEnvVars login_transcript (Some ''user'') = Some [login_password_var]
   \<and> replaceWithEnvVars login_transcript login_vars = Some login_rewritten
   \<and> replaceWithEnvVars login_transcript [login_password_var] = Some login_rewritten_password"
proof (intro conjI)
  show "map_option (map m_groups) (all_matches (global_regexp emailPattern) login_transcript)
     = Some [[Some ''Email'', Some ''alice@example.com'']]"
    by code_simp
  show "map_option (map m_groups) (all_matches (global_regexp passwordPattern) login_transcript)
     = Some [[Some ''Password'', Some ''s3cr3t!'']]"
    by code_simp
  show "generateEnvVarName ''alice@example.com'' Email (Some ''Email'') (Some ''user'') = ''QA_USER_EMAIL''"
    by code_simp
  show "generateEnvVarName ''s3cr3t!'' Password (Some ''Password'') (Some ''user'') = ''QA_USER_PASSWORD''"
    by code_simp
  show "isCommonTestData ''alice@example.com''"
    by code_simp
  show "detectEnvVars login_transcript (Some ''user'') = Some [login_password_var]"
    by code_simp
  show "replaceWithEnvVars login_transcript login_vars = Some login_rewritten"
    by (rule login_rewrite)
  show "replaceWithEnvVars login_transcript [login_password_var] = Some login_rewritten_password"
    by code_simp
qed

text \<open>Claim C1 as stated fails: the output holds one credential, not two.\<close>

theorem login_scenario_counterexample:
  "map_option (map ev_value) (detectEnvVars login_transcript (Some ''user'')) = Some [''s3cr3t!'']"
  by code_simp

end
